theory Spec2Isabelle
  imports Complex_Main "HOL-Library.Word" "HOL-Library.Signed_Division"
begin

unbundle bit_operations_syntax

section \<open>Number-to-string conversion of duk_numconv.c\<close>

subsection \<open>Limited functionality bigint\<close>

type_synonym u32 = "32 word"
type_synonym u64 = "64 word"

text \<open>
  The C type is \<^verbatim>\<open>struct { int n; uint32_t v[BI_MAX_PARTS]; }\<close>, limbs low to high.
  No operation of the file reads a limb at an index \<open>\<ge> n\<close>, so a bigint is modelled by
  the list of its limbs \<open>v[0..n)\<close>; the field \<open>n\<close> is the length of the list. The
  capacity \<open>BI_MAX_PARTS = 35\<close> is the caller's responsibility in the source (assertions
  only) and is not a bound of the model.
\<close>

type_synonym duk_bigint = "u32 list"

definition bi_is_normalized :: "duk_bigint \<Rightarrow> bool" where
  "bi_is_normalized x = (length x = 0 \<or> x ! (length x - 1) \<noteq> 0)"

text \<open>
  \<open>bi_normalize\<close>: the loop \<^verbatim>\<open>for (i = x->n - 1; i >= 0; i--) if (x->v[i] != 0) break;\<close>
  The scan below is called with \<open>i + 1\<close> and returns the new \<open>n = i + 1\<close>.
\<close>

fun bi_normalize_scan :: "duk_bigint \<Rightarrow> nat \<Rightarrow> nat" where
  "bi_normalize_scan x 0 = 0"
| "bi_normalize_scan x (Suc i) = (if x ! i \<noteq> 0 then Suc i else bi_normalize_scan x i)"

definition bi_normalize :: "duk_bigint \<Rightarrow> duk_bigint" where
  "bi_normalize x = take (bi_normalize_scan x (length x)) x"

text \<open>\<open>bi_copy x\<close> is the new content of the destination \<open>y\<close>: \<open>n\<close> and \<open>n\<close> limbs of \<open>x\<close>.\<close>

definition bi_copy :: "duk_bigint \<Rightarrow> duk_bigint" where
  "bi_copy x = (let n = length x in if n = 0 then [] else take n x)"

definition bi_set_small :: "u32 \<Rightarrow> duk_bigint" where
  "bi_set_small v = (if v = 0 then [] else [v])"

text \<open>
  \<open>bi_add\<close>: ripple carry in a 64-bit accumulator. The destination \<open>z\<close> is written at the
  indices \<open>0, 1, 2, \<dots>\<close> in turn, so the loop appends to it.
\<close>

function bi_add_loop :: "duk_bigint \<Rightarrow> duk_bigint \<Rightarrow> nat \<Rightarrow> u64 \<Rightarrow> duk_bigint \<Rightarrow> duk_bigint \<times> u64" where
  "bi_add_loop x y i tmp z =
     (if i < length x then
        let tmp1 = tmp + ucast (x ! i);
            tmp2 = (if i < length y then tmp1 + ucast (y ! i) else tmp1)
        in bi_add_loop x y (i + 1) (drop_bit 32 tmp2) (z @ [ucast (tmp2 AND 0xffffffff)])
      else (z, tmp))"
  by pat_completeness auto
termination
  by (relation "measure (\<lambda>(x, y, i, tmp, z). length x - i)") auto

declare bi_add_loop.simps [simp del]

definition bi_add :: "duk_bigint \<Rightarrow> duk_bigint \<Rightarrow> duk_bigint" where
  "bi_add x y =
     (let (x1, y1) = (if length y > length x then (y, x) else (x, y));
          (z, tmp) = bi_add_loop x1 y1 0 0 []
      in if tmp \<noteq> 0 then z @ [ucast tmp] else z)"

text \<open>
  \<open>bi_sub\<close>: ripple borrow in a signed 64-bit accumulator; \<^verbatim>\<open>tmp >> 32\<close> on the signed
  value is the arithmetic shift (the source's comment: 0 or -1).
\<close>

function bi_sub_loop :: "duk_bigint \<Rightarrow> duk_bigint \<Rightarrow> nat \<Rightarrow> u64 \<Rightarrow> duk_bigint \<Rightarrow> duk_bigint" where
  "bi_sub_loop x y i tmp z =
     (if i < length x then
        let tx = x ! i;
            ty = (if i < length y then y ! i else 0);
            tmp1 = ucast tx - ucast ty + tmp
        in bi_sub_loop x y (i + 1) (signed_drop_bit 32 tmp1) (z @ [ucast (tmp1 AND 0xffffffff)])
      else z)"
  by pat_completeness auto
termination
  by (relation "measure (\<lambda>(x, y, i, tmp, z). length x - i)") auto

declare bi_sub_loop.simps [simp del]

definition bi_sub :: "duk_bigint \<Rightarrow> duk_bigint \<Rightarrow> duk_bigint" where
  "bi_sub x y = bi_normalize (bi_sub_loop x y 0 0 [])"

text \<open>
  \<open>bi_mul\<close>: schoolbook multiplication into the zeroed destination \<open>z\<close> of \<open>nz = x->n + y->n\<close>
  limbs, then \<open>bi_normalize\<close>.
\<close>

function bi_mul_inner :: "u32 \<Rightarrow> duk_bigint \<Rightarrow> nat \<Rightarrow> nat \<Rightarrow> u64 \<Rightarrow> duk_bigint \<Rightarrow> duk_bigint \<times> u64" where
  "bi_mul_inner xi y i j tmp z =
     (if j < length y then
        let tmp1 = tmp + (ucast xi * ucast (y ! j) + ucast (z ! (i + j)))
        in bi_mul_inner xi y i (j + 1) (drop_bit 32 tmp1) (z[i + j := ucast (tmp1 AND 0xffffffff)])
      else (z, tmp))"
  by pat_completeness auto
termination
  by (relation "measure (\<lambda>(xi, y, i, j, tmp, z). length y - j)") auto

declare bi_mul_inner.simps [simp del]

function bi_mul_outer :: "duk_bigint \<Rightarrow> duk_bigint \<Rightarrow> nat \<Rightarrow> duk_bigint \<Rightarrow> duk_bigint" where
  "bi_mul_outer x y i z =
     (if i < length x then
        let (z1, tmp) = bi_mul_inner (x ! i) y i 0 0 z;
            z2 = (if tmp > 0 then z1[i + length y := z1 ! (i + length y) + ucast tmp] else z1)
        in bi_mul_outer x y (i + 1) z2
      else z)"
  by pat_completeness auto
termination
  by (relation "measure (\<lambda>(x, y, i, z). length x - i)") auto

declare bi_mul_outer.simps [simp del]

definition bi_mul :: "duk_bigint \<Rightarrow> duk_bigint \<Rightarrow> duk_bigint" where
  "bi_mul x y =
     (let nz = length x + length y
      in if nz = 0 then [] else bi_normalize (bi_mul_outer x y 0 (replicate nz 0)))"

definition bi_mul_small :: "duk_bigint \<Rightarrow> u32 \<Rightarrow> duk_bigint" where
  "bi_mul_small x y = (let tmp = (if y = 0 then [] else [y]) in bi_mul x tmp)"

text \<open>
  The \<open>_copy\<close> variants compute into the scratch bigint \<open>t\<close> and copy it back to \<open>x\<close>;
  they return the new \<open>(x, t)\<close>.
\<close>

definition bi_sub_copy :: "duk_bigint \<Rightarrow> duk_bigint \<Rightarrow> duk_bigint \<times> duk_bigint" where
  "bi_sub_copy x y = (let t = bi_sub x y in (bi_copy t, t))"

definition bi_mul_small_copy :: "duk_bigint \<Rightarrow> u32 \<Rightarrow> duk_bigint \<times> duk_bigint" where
  "bi_mul_small_copy x y = (let t = bi_mul_small x y in (bi_copy t, t))"

text \<open>\<open>bi_compare\<close>: lengths first, then limbs from the most significant one.\<close>

fun bi_compare_loop :: "duk_bigint \<Rightarrow> duk_bigint \<Rightarrow> nat \<Rightarrow> int" where
  "bi_compare_loop x y 0 = 0"
| "bi_compare_loop x y (Suc i) =
     (if x ! i > y ! i then 1
      else if x ! i < y ! i then - 1
      else bi_compare_loop x y i)"

definition bi_compare :: "duk_bigint \<Rightarrow> duk_bigint \<Rightarrow> int" where
  "bi_compare x y =
     (if length x > length y then 1
      else if length x < length y then - 1
      else bi_compare_loop x y (length x))"

definition bi_is_even :: "duk_bigint \<Rightarrow> bool" where
  "bi_is_even x = (length x = 0 \<or> (x ! 0) AND 0x01 = 0)"

definition bi_is_2to52 :: "duk_bigint \<Rightarrow> bool" where
  "bi_is_2to52 x = (length x = 2 \<and> x ! 0 = 0 \<and> x ! 1 = push_bit (52 - 32) 1)"

text \<open>
  \<open>bi_twoexp\<close>: \<^verbatim>\<open>n = (y / 32) + 1; r = y % 32;\<close> with C's truncating division, \<open>n\<close>
  zeroed limbs and \<^verbatim>\<open>v[n - 1] = 1 << r\<close>. Every call of the file passes \<open>y \<ge> 0\<close>.
\<close>

definition bi_twoexp :: "int \<Rightarrow> duk_bigint" where
  "bi_twoexp y =
     (let n = (y sdiv 32) + 1;
          r = y smod 32
      in (replicate (nat n) 0)[nat (n - 1) := push_bit (nat r) 1])"



subsection \<open>The conversion context\<close>

text \<open>
  \<^verbatim>\<open>duk_numconv_stringify_ctx\<close>. The input number \<open>x\<close> is kept as its IEEE-754 binary64 bit
  pattern. \<open>nc_out_buf\<close> is the written part \<^verbatim>\<open>out_buf[0 .. out_p)\<close> of the output buffer
  \<^verbatim>\<open>char out_buf[512]\<close>. Two fields are not fields of the C struct but ghost logs, in call
  order: \<open>nc_quotients\<close> of the quotient digits \<open>d\<close> that the division of Generate yields,
  one per round, and \<open>nc_emitted\<close> of the digit indices passed to \<open>dragon4_output\<close>.
\<close>

record duk_numconv_stringify_ctx =
  nc_f :: duk_bigint
  nc_r :: duk_bigint
  nc_s :: duk_bigint
  nc_mp :: duk_bigint
  nc_mm :: duk_bigint
  nc_t1 :: duk_bigint
  nc_t2 :: duk_bigint
  nc_x :: u64
  nc_e :: int
  nc_B :: int
  nc_k :: int
  nc_low_ok :: int
  nc_high_ok :: int
  nc_out_buf :: string
  nc_out_first :: int
  nc_quotients :: "int list"
  nc_emitted :: "int list"

definition IEEE_DOUBLE_EXP_BIAS :: int where
  "IEEE_DOUBLE_EXP_BIAS = 1023"

definition IEEE_DOUBLE_EXP_MIN :: int where
  "IEEE_DOUBLE_EXP_MIN = - 1022"

text \<open>
  The faults of the model, both undefined behaviour in C: \<^verbatim>\<open>digits[d]\<close> read outside the
  36 entries of the table, and a write past the end of \<^verbatim>\<open>out_buf\<close>. A faulting run ends
  at its first fault, with the fault and the context in which the access was attempted
  (which holds the ghost logs up to there).
\<close>

datatype numconv_fault = Digits_Index_Out_Of_Range | Out_Buf_Overflow

type_synonym 'a numconv_result = "numconv_fault \<times> duk_numconv_stringify_ctx + 'a"

text \<open>
  \<^verbatim>\<open>NUMCONV_PUTCHAR\<close> is \<^verbatim>\<open>*((nc_ctx)->out_p++) = (x)\<close> after an assertion that \<open>out_p\<close> is
  inside the buffer. The write is at the index \<open>out_p - out_buf\<close>, the length of the
  written part, and is inside the array iff that is below \<^verbatim>\<open>sizeof(out_buf) = 512\<close>.
\<close>

definition NUMCONV_PUTCHAR ::
  "duk_numconv_stringify_ctx \<Rightarrow> char \<Rightarrow> duk_numconv_stringify_ctx numconv_result" where
  "NUMCONV_PUTCHAR nc c =
     (if length (nc_out_buf nc) < 512 then Inr (nc\<lparr>nc_out_buf := nc_out_buf nc @ [c]\<rparr>)
      else Inl (Out_Buf_Overflow, nc))"

definition digits :: "char list" where
  "digits = ''0123456789abcdefghijklmnopqrstuvwxyz''"

subsection \<open>Double decomposition\<close>

text \<open>
  \<^verbatim>\<open>union { double d; uint32_t v[2]; }\<close>: the source reads \<open>v[0]\<close> as the low and \<open>v[1]\<close> as
  the high 32 bits of the double (little-endian layout, as its comment notes).
\<close>

definition dragon4_convert_double :: "duk_numconv_stringify_ctx \<Rightarrow> duk_numconv_stringify_ctx" where
  "dragon4_convert_double nc =
     (let u_v0 = (ucast (nc_x nc) :: u32);
          u_v1 = (ucast (drop_bit 32 (nc_x nc)) :: u32);
          f = [u_v0, u_v1 AND 0x000fffff];
          exp = uint ((drop_bit 20 u_v1) AND 0x07ff)
      in if exp = 0
         then nc\<lparr>nc_f := f, nc_e := IEEE_DOUBLE_EXP_MIN - 52\<rparr>
         else nc\<lparr>nc_f := f[1 := (f ! 1) OR 0x00100000],
                 nc_e := exp - IEEE_DOUBLE_EXP_BIAS - 52\<rparr>)"

subsection \<open>Dragon4 setup\<close>

definition dragon4_prepare :: "duk_numconv_stringify_ctx \<Rightarrow> duk_numconv_stringify_ctx" where
  "dragon4_prepare nc0 =
     (let nc = (if bi_is_even (nc_f nc0)
                then nc0\<lparr>nc_low_ok := 1, nc_high_ok := 1\<rparr>
                else nc0\<lparr>nc_low_ok := 0, nc_high_ok := 0\<rparr>)
      in if nc_e nc \<ge> 0 then
           if bi_is_2to52 (nc_f nc) then
             let nc = nc\<lparr>nc_t1 := bi_twoexp (nc_e nc + 2)\<rparr>;
                 nc = nc\<lparr>nc_r := bi_mul (nc_f nc) (nc_t1 nc)\<rparr>;
                 nc = nc\<lparr>nc_s := bi_set_small 4\<rparr>;
                 nc = nc\<lparr>nc_mp := bi_twoexp (nc_e nc + 1)\<rparr>;
                 nc = nc\<lparr>nc_mm := bi_twoexp (nc_e nc)\<rparr>
             in nc
           else
             let nc = nc\<lparr>nc_t1 := bi_twoexp (nc_e nc + 1)\<rparr>;
                 nc = nc\<lparr>nc_r := bi_mul (nc_f nc) (nc_t1 nc)\<rparr>;
                 nc = nc\<lparr>nc_s := bi_set_small 2\<rparr>;
                 nc = nc\<lparr>nc_t1 := bi_twoexp (nc_e nc)\<rparr>;
                 nc = nc\<lparr>nc_mp := bi_copy (nc_t1 nc)\<rparr>;
                 nc = nc\<lparr>nc_mm := bi_copy (nc_t1 nc)\<rparr>
             in nc
         else
           if nc_e nc > IEEE_DOUBLE_EXP_MIN \<and> bi_is_2to52 (nc_f nc) then
             let nc = nc\<lparr>nc_r := bi_mul_small (nc_f nc) 4\<rparr>;
                 nc = nc\<lparr>nc_s := bi_twoexp (2 - nc_e nc)\<rparr>;
                 nc = nc\<lparr>nc_mp := bi_set_small 2\<rparr>;
                 nc = nc\<lparr>nc_mm := bi_set_small 1\<rparr>
             in nc
           else
             let nc = nc\<lparr>nc_r := bi_mul_small (nc_f nc) 2\<rparr>;
                 nc = nc\<lparr>nc_s := bi_twoexp (1 - nc_e nc)\<rparr>;
                 nc = nc\<lparr>nc_mp := bi_set_small 1\<rparr>;
                 nc = nc\<lparr>nc_mm := bi_set_small 1\<rparr>
             in nc)"

subsection \<open>Scale\<close>

text \<open>
  The two \<^verbatim>\<open>for (;;)\<close> loops of \<open>dragon4_scale\<close>, with the local \<open>k\<close> as an argument.
  They have no bound in the source, so they are partial functions: \<open>None\<close> stands for a
  loop that does not end. The radix \<open>B\<close> is an \<open>int\<close> converted to \<open>uint32_t\<close> at the call.
\<close>

partial_function (option) dragon4_scale_inc ::
  "duk_numconv_stringify_ctx \<Rightarrow> int \<Rightarrow> (duk_numconv_stringify_ctx \<times> int) option" where
  "dragon4_scale_inc nc k =
     (let nc1 = nc\<lparr>nc_t1 := bi_add (nc_r nc) (nc_mp nc)\<rparr>
      in if bi_compare (nc_t1 nc1) (nc_s nc1) \<ge> (if nc_high_ok nc1 \<noteq> 0 then 0 else 1) then
           (case bi_mul_small_copy (nc_s nc1) (word_of_int (nc_B nc1)) of
              (s', t1') \<Rightarrow> dragon4_scale_inc (nc1\<lparr>nc_s := s', nc_t1 := t1'\<rparr>) (k + 1))
         else Some (nc1, k))"

declare dragon4_scale_inc.simps [code]

partial_function (option) dragon4_scale_dec ::
  "duk_numconv_stringify_ctx \<Rightarrow> int \<Rightarrow> (duk_numconv_stringify_ctx \<times> int) option" where
  "dragon4_scale_dec nc k =
     (let nc1 = nc\<lparr>nc_t1 := bi_add (nc_r nc) (nc_mp nc)\<rparr>;
          nc2 = nc1\<lparr>nc_t2 := bi_mul_small (nc_t1 nc1) (word_of_int (nc_B nc1))\<rparr>
      in if bi_compare (nc_t2 nc2) (nc_s nc2) \<le> (if nc_high_ok nc2 \<noteq> 0 then - 1 else 0) then
           (case bi_mul_small_copy (nc_r nc2) (word_of_int (nc_B nc2)) of (r', ta) \<Rightarrow>
            case bi_mul_small_copy (nc_mp nc2) (word_of_int (nc_B nc2)) of (mp', tb) \<Rightarrow>
            case bi_mul_small_copy (nc_mm nc2) (word_of_int (nc_B nc2)) of (mm', tc) \<Rightarrow>
              dragon4_scale_dec (nc2\<lparr>nc_r := r', nc_mp := mp', nc_mm := mm', nc_t1 := tc\<rparr>) (k - 1))
         else Some (nc2, k))"

declare dragon4_scale_dec.simps [code]

definition dragon4_scale :: "duk_numconv_stringify_ctx \<Rightarrow> duk_numconv_stringify_ctx option" where
  "dragon4_scale nc =
     (case dragon4_scale_inc nc 0 of
        None \<Rightarrow> None
      | Some (nc1, k) \<Rightarrow>
          if k > 0 then Some (nc1\<lparr>nc_k := k\<rparr>)
          else (case dragon4_scale_dec nc1 k of
                  None \<Rightarrow> None
                | Some (nc2, k2) \<Rightarrow> Some (nc2\<lparr>nc_k := k2\<rparr>)))"

subsection \<open>Output formatter\<close>

text \<open>The loop \<^verbatim>\<open>for (i = 0; i > nc_ctx->k; i--) NUMCONV_PUTCHAR(nc_ctx, '0');\<close>\<close>

function dragon4_output_zeros ::
  "duk_numconv_stringify_ctx \<Rightarrow> int \<Rightarrow> duk_numconv_stringify_ctx numconv_result" where
  "dragon4_output_zeros nc i =
     (if i > nc_k nc then
        (case NUMCONV_PUTCHAR nc (CHR ''0'') of
           Inl err \<Rightarrow> Inl err
         | Inr nc1 \<Rightarrow> dragon4_output_zeros nc1 (i - 1))
      else Inr nc)"
  by pat_completeness auto
termination
  by (relation "measure (\<lambda>(nc, i). nat (i - nc_k nc))")
     (auto simp: NUMCONV_PUTCHAR_def split: if_splits)

declare dragon4_output_zeros.simps [simp del]

text \<open>
  \<open>dragon4_output\<close>. The first line is the ghost log of the digit index passed in. The
  table is read for the argument of the last \<^verbatim>\<open>NUMCONV_PUTCHAR\<close>.
\<close>

definition dragon4_output ::
  "duk_numconv_stringify_ctx \<Rightarrow> int \<Rightarrow> int \<Rightarrow> duk_numconv_stringify_ctx numconv_result" where
  "dragon4_output nc0 d n =
     (let nc = nc0\<lparr>nc_emitted := nc_emitted nc0 @ [d]\<rparr>;
          pos = nc_k nc - n;
          res = (if pos \<le> 0 \<and> nc_out_first nc \<noteq> 0 then
                   (case NUMCONV_PUTCHAR nc (CHR ''0'') of
                      Inl err \<Rightarrow> Inl err
                    | Inr nc1 \<Rightarrow>
                        (case NUMCONV_PUTCHAR nc1 (CHR ''.'') of
                           Inl err \<Rightarrow> Inl err
                         | Inr nc2 \<Rightarrow> dragon4_output_zeros nc2 0))
                 else if pos = 0 then NUMCONV_PUTCHAR nc (CHR ''.'')
                 else Inr nc)
      in case res of
           Inl err \<Rightarrow> Inl err
         | Inr nc3 \<Rightarrow>
             if 0 \<le> d \<and> d < 36 then
               (case NUMCONV_PUTCHAR nc3 (digits ! nat d) of
                  Inl err \<Rightarrow> Inl err
                | Inr nc4 \<Rightarrow> Inr (nc4\<lparr>nc_out_first := 0\<rparr>))
             else Inl (Digits_Index_Out_Of_Range, nc3))"

function dragon4_finish_loop ::
  "duk_numconv_stringify_ctx \<Rightarrow> int \<Rightarrow> duk_numconv_stringify_ctx numconv_result" where
  "dragon4_finish_loop nc pos =
     (if pos \<le> 0 then Inr nc
      else (case NUMCONV_PUTCHAR nc (CHR ''0'') of
              Inl err \<Rightarrow> Inl err
            | Inr nc1 \<Rightarrow> dragon4_finish_loop nc1 (pos - 1)))"
  by pat_completeness auto
termination
  by (relation "measure (\<lambda>(nc, pos). nat pos)") auto

declare dragon4_finish_loop.simps [simp del]

definition dragon4_finish ::
  "duk_numconv_stringify_ctx \<Rightarrow> int \<Rightarrow> duk_numconv_stringify_ctx numconv_result" where
  "dragon4_finish nc n = (if nc_k nc \<ge> 1 then dragon4_finish_loop nc (nc_k nc - n) else Inr nc)"

subsection \<open>Generate\<close>

text \<open>
  The inner loop of \<open>dragon4_generate\<close>: the quotient and remainder of \<open>t1 / s\<close> by
  repeated subtraction.
\<close>

partial_function (option) dragon4_generate_div ::
  "duk_numconv_stringify_ctx \<Rightarrow> int \<Rightarrow> (duk_numconv_stringify_ctx \<times> int) option" where
  "dragon4_generate_div nc d =
     (if bi_compare (nc_t1 nc) (nc_s nc) < 0 then Some (nc, d)
      else (case bi_sub_copy (nc_t1 nc) (nc_s nc) of
              (t1', t2') \<Rightarrow> dragon4_generate_div (nc\<lparr>nc_t1 := t1', nc_t2 := t2'\<rparr>) (d + 1)))"

declare dragon4_generate_div.simps [code]

text \<open>
  The second termination test of the source reads
  \<^verbatim>\<open>tc2 = (bi_compare(&nc_ctx->t1, &nc_ctx->s) >= (&nc_ctx->high_ok ? 0 : 1));\<close>
  Its condition is the address of the field \<open>high_ok\<close> of the context, which is never
  null, and not the value of the field.
\<close>

definition addr_of_high_ok_is_nonnull :: "duk_numconv_stringify_ctx \<Rightarrow> bool" where
  "addr_of_high_ok_is_nonnull nc = True"

definition generate_tc1 :: "duk_numconv_stringify_ctx \<Rightarrow> int" where
  "generate_tc1 nc =
     (if bi_compare (nc_r nc) (nc_mm nc) \<le> (if nc_low_ok nc \<noteq> 0 then 0 else - 1) then 1 else 0)"

definition generate_tc2 :: "duk_numconv_stringify_ctx \<Rightarrow> int" where
  "generate_tc2 nc =
     (if bi_compare (nc_t1 nc) (nc_s nc) \<ge> (if addr_of_high_ok_is_nonnull nc then 0 else 1) then 1 else 0)"

text \<open>
  One round of the outer loop up to the two tests: the division, \<open>r\<close> replaced by the
  remainder, \<open>m+\<close> and \<open>m-\<close> multiplied by \<open>B\<close>, and \<open>t1 = r + m+\<close>.
\<close>

definition dragon4_generate_step ::
  "duk_numconv_stringify_ctx \<Rightarrow> (duk_numconv_stringify_ctx \<times> int) option" where
  "dragon4_generate_step nc =
     (case dragon4_generate_div (nc\<lparr>nc_t1 := bi_mul_small (nc_r nc) (word_of_int (nc_B nc))\<rparr>) 0 of
        None \<Rightarrow> None
      | Some (nc1, d) \<Rightarrow>
          (let nc2 = nc1\<lparr>nc_r := bi_copy (nc_t1 nc1), nc_quotients := nc_quotients nc1 @ [d]\<rparr>
           in case bi_mul_small_copy (nc_mp nc2) (word_of_int (nc_B nc2)) of (mp', ta) \<Rightarrow>
              case bi_mul_small_copy (nc_mm nc2) (word_of_int (nc_B nc2)) of (mm', tb) \<Rightarrow>
                (let nc3 = nc2\<lparr>nc_mp := mp', nc_mm := mm', nc_t2 := tb\<rparr>;
                     nc4 = nc3\<lparr>nc_t1 := bi_add (nc_r nc3) (nc_mp nc3)\<rparr>
                 in Some (nc4, d))))"

text \<open>
  The outer loop. It returns the context and the final \<open>count\<close>, or the fault of the
  emitter.
\<close>

partial_function (option) dragon4_generate_loop ::
  "duk_numconv_stringify_ctx \<Rightarrow> int \<Rightarrow> (duk_numconv_stringify_ctx \<times> int) numconv_result option" where
  "dragon4_generate_loop nc count =
     (case dragon4_generate_step nc of
        None \<Rightarrow> None
      | Some (nc4, d) \<Rightarrow>
          (let tc1 = generate_tc1 nc4;
               tc2 = generate_tc2 nc4
           in if tc1 \<noteq> 0 then
                if tc2 \<noteq> 0 then
                  (let nc5 = nc4\<lparr>nc_t1 := bi_mul_small (nc_r nc4) 2\<rparr>
                   in if bi_compare (nc_t1 nc5) (nc_s nc5) < 0 then
                        (case dragon4_output nc5 d count of
                           Inl err \<Rightarrow> Some (Inl err)
                         | Inr nc6 \<Rightarrow> Some (Inr (nc6, count + 1)))
                      else
                        (case dragon4_output nc5 (d + 1) count of
                           Inl err \<Rightarrow> Some (Inl err)
                         | Inr nc6 \<Rightarrow> Some (Inr (nc6, count + 1))))
                else
                  (case dragon4_output nc4 d count of
                     Inl err \<Rightarrow> Some (Inl err)
                   | Inr nc6 \<Rightarrow> Some (Inr (nc6, count + 1)))
              else
                if tc2 \<noteq> 0 then
                  (case dragon4_output nc4 (d + 1) count of
                     Inl err \<Rightarrow> Some (Inl err)
                   | Inr nc6 \<Rightarrow> Some (Inr (nc6, count + 1)))
                else
                  (case dragon4_output nc4 d count of
                     Inl err \<Rightarrow> Some (Inl err)
                   | Inr nc6 \<Rightarrow> dragon4_generate_loop nc6 (count + 1))))"

declare dragon4_generate_loop.simps [code]

definition dragon4_generate ::
  "duk_numconv_stringify_ctx \<Rightarrow> duk_numconv_stringify_ctx numconv_result option" where
  "dragon4_generate nc =
     (case dragon4_generate_loop nc 0 of
        None \<Rightarrow> None
      | Some (Inl err) \<Rightarrow> Some (Inl err)
      | Some (Inr (nc1, count)) \<Rightarrow> Some (dragon4_finish nc1 count))"

subsection \<open>Exposed number-to-string API\<close>

text \<open>
  The C library's \<open>fpclassify\<close>, the comparison \<^verbatim>\<open>x < 0\<close> and the negation \<^verbatim>\<open>-x\<close> of a
  double, on the binary64 bit pattern: sign bit 63, exponent field bits 62..52, fraction
  bits 51..0.
\<close>

datatype fp_class = FP_NAN | FP_INFINITE | FP_ZERO | FP_SUBNORMAL | FP_NORMAL

definition double_exp_field :: "u64 \<Rightarrow> int" where
  "double_exp_field x = uint (drop_bit 52 x AND 0x7ff)"

definition double_frac_field :: "u64 \<Rightarrow> int" where
  "double_frac_field x = uint (x AND 0xfffffffffffff)"

definition double_sign_bit :: "u64 \<Rightarrow> bool" where
  "double_sign_bit x = bit x 63"

definition fpclassify :: "u64 \<Rightarrow> fp_class" where
  "fpclassify x =
     (if double_exp_field x = 0x7ff then
        (if double_frac_field x = 0 then FP_INFINITE else FP_NAN)
      else if double_exp_field x = 0 then
        (if double_frac_field x = 0 then FP_ZERO else FP_SUBNORMAL)
      else FP_NORMAL)"

definition double_less_zero :: "u64 \<Rightarrow> bool" where
  "double_less_zero x = (double_sign_bit x \<and> fpclassify x \<noteq> FP_NAN \<and> fpclassify x \<noteq> FP_ZERO)"

definition double_negate :: "u64 \<Rightarrow> u64" where
  "double_negate x = x XOR push_bit 63 1"

text \<open>
  A finite double is \<open>m * 2 ^ e\<close> in absolute value, with the integers \<open>m\<close> and \<open>e\<close> read
  from its fields.
\<close>

definition double_mant :: "u64 \<Rightarrow> int" where
  "double_mant x = (if double_exp_field x = 0 then double_frac_field x else double_frac_field x + 2 ^ 52)"

definition double_exp :: "u64 \<Rightarrow> int" where
  "double_exp x = (if double_exp_field x = 0 then - 1074 else double_exp_field x - 1075)"

text \<open>
  The casts \<^verbatim>\<open>(unsigned int) x\<close> and \<^verbatim>\<open>((double) uval) == x\<close> of the fast path, for a finite
  non-negative \<open>x\<close>. The first truncates towards zero; C leaves it undefined when the
  truncated value does not fit 32 bits, and the model keeps its low 32 bits there. The
  second is exact, every 32-bit integer being a double.
\<close>

definition double_to_uint :: "u64 \<Rightarrow> u32" where
  "double_to_uint x =
     (if double_exp x \<ge> 0 then word_of_int (double_mant x * 2 ^ nat (double_exp x))
      else word_of_int (double_mant x div 2 ^ nat (- double_exp x)))"

definition uint_eq_double :: "u32 \<Rightarrow> u64 \<Rightarrow> bool" where
  "uint_eq_double uval x =
     (if double_exp x \<ge> 0 then uint uval = double_mant x * 2 ^ nat (double_exp x)
      else uint uval * 2 ^ nat (- double_exp x) = double_mant x)"

text \<open>
  The three calls that leave the result on the value stack of the embedding runtime.
\<close>

datatype duk_stridx =
  DUK_STRIDX_NAN | DUK_STRIDX_MINUS_INFINITY | DUK_STRIDX_INFINITY | DUK_STRIDX_ZERO

datatype duk_push =
  Push_hstring_stridx duk_stridx
| Push_sprintf bool u32
| Push_string string

text \<open>
  Modelled from the spec: the string table of the runtime (\<open>duk_push_hstring_stridx\<close>
  and the \<open>DUK_STRIDX\<close> constants are declared in \<open>duk_internal.h\<close>, which is not part of
  the file). The spec names the literals \<open>NaN\<close>, \<open>Infinity\<close>, \<open>-Infinity\<close> and \<open>0\<close>.
\<close>

fun duk_stridx_string :: "duk_stridx \<Rightarrow> string" where
  "duk_stridx_string DUK_STRIDX_NAN = ''NaN''"
| "duk_stridx_string DUK_STRIDX_MINUS_INFINITY = ''-Infinity''"
| "duk_stridx_string DUK_STRIDX_INFINITY = ''Infinity''"
| "duk_stridx_string DUK_STRIDX_ZERO = ''0''"

text \<open>
  Modelled from the spec: \<open>duk_push_sprintf\<close> with the format \<^verbatim>\<open>"%s%u"\<close>, the standard
  base-10 rendering of an unsigned integer after an optional \<open>-\<close>.
\<close>

function fmt_u :: "u32 \<Rightarrow> string" where
  "fmt_u n = (if n < 10 then [digits ! unat n] else fmt_u (n div 10) @ [digits ! unat (n mod 10)])"
  by pat_completeness auto
termination
  by (relation "measure unat") (auto simp: unat_div word_less_nat_alt)

declare fmt_u.simps [simp del]

text \<open>\<open>duk_push_string\<close> takes a C string: the bytes before the first NUL.\<close>

definition c_string :: "string \<Rightarrow> string" where
  "c_string buf = takeWhile (\<lambda>c. c \<noteq> CHR 0x00) buf"

fun duk_pushed_string :: "duk_push \<Rightarrow> string" where
  "duk_pushed_string (Push_hstring_stridx i) = duk_stridx_string i"
| "duk_pushed_string (Push_sprintf neg uval) = (if neg then [CHR ''-''] else []) @ fmt_u uval"
| "duk_pushed_string (Push_string str) = c_string str"

text \<open>
  The slow path of \<open>duk_numconv_stringify\<close>: the context is a local of the function and
  is not initialised, so the model takes its initial content \<open>nc_alloc\<close> as an argument.
  The path is cut at the calls of the source: \<open>numconv_init\<close> is the four assignments from
  \<^verbatim>\<open>nc_ctx->x = x;\<close> to \<^verbatim>\<open>nc_ctx->out_p = nc_ctx->out_buf;\<close>, \<open>numconv_prepared\<close> the
  context after \<^verbatim>\<open>dragon4_prepare(nc_ctx);\<close>, \<open>numconv_scaled\<close> the one after
  \<^verbatim>\<open>dragon4_scale(nc_ctx);\<close>, and \<open>numconv_slow_ctx\<close> the one after
  \<^verbatim>\<open>NUMCONV_PUTCHAR(nc_ctx, '\0');\<close>; \<open>numconv_slow_path\<close> adds the final
  \<^verbatim>\<open>duk_push_string(ctx, nc_ctx->out_buf)\<close>.
\<close>

definition numconv_init ::
  "duk_numconv_stringify_ctx \<Rightarrow> u64 \<Rightarrow> int \<Rightarrow> duk_numconv_stringify_ctx" where
  "numconv_init nc_alloc x radix =
     nc_alloc\<lparr>nc_x := x, nc_B := radix, nc_out_first := 1, nc_out_buf := [],
              nc_quotients := [], nc_emitted := []\<rparr>"

definition numconv_prepared ::
  "duk_numconv_stringify_ctx \<Rightarrow> u64 \<Rightarrow> int \<Rightarrow> duk_numconv_stringify_ctx" where
  "numconv_prepared nc_alloc x radix =
     dragon4_prepare (dragon4_convert_double (numconv_init nc_alloc x radix))"

definition numconv_scaled ::
  "duk_numconv_stringify_ctx \<Rightarrow> u64 \<Rightarrow> int \<Rightarrow> duk_numconv_stringify_ctx option" where
  "numconv_scaled nc_alloc x radix = dragon4_scale (numconv_prepared nc_alloc x radix)"

definition numconv_slow_ctx ::
  "duk_numconv_stringify_ctx \<Rightarrow> u64 \<Rightarrow> int \<Rightarrow> int \<Rightarrow>
     duk_numconv_stringify_ctx numconv_result option" where
  "numconv_slow_ctx nc_alloc x radix neg =
     (case numconv_scaled nc_alloc x radix of
        None \<Rightarrow> None
      | Some nc1 \<Rightarrow>
          (case (if neg \<noteq> 0 then NUMCONV_PUTCHAR nc1 (CHR ''-'') else Inr nc1) of
             Inl err \<Rightarrow> Some (Inl err)
           | Inr nc2 \<Rightarrow>
               (case dragon4_generate nc2 of
                  None \<Rightarrow> None
                | Some (Inl err) \<Rightarrow> Some (Inl err)
                | Some (Inr nc3) \<Rightarrow> Some (NUMCONV_PUTCHAR nc3 (CHR 0x00)))))"

definition numconv_slow_path ::
  "duk_numconv_stringify_ctx \<Rightarrow> u64 \<Rightarrow> int \<Rightarrow> int \<Rightarrow> duk_push numconv_result option" where
  "numconv_slow_path nc_alloc x radix neg =
     (case numconv_slow_ctx nc_alloc x radix neg of
        None \<Rightarrow> None
      | Some (Inl err) \<Rightarrow> Some (Inl err)
      | Some (Inr nc4) \<Rightarrow> Some (Inr (Push_string (nc_out_buf nc4))))"

definition duk_numconv_stringify ::
  "duk_numconv_stringify_ctx \<Rightarrow> u64 \<Rightarrow> int \<Rightarrow> int \<Rightarrow> duk_push numconv_result option" where
  "duk_numconv_stringify nc_alloc x0 radix digits_hint =
     (let c = fpclassify x0;
          (x, neg) = (if double_less_zero x0 then (double_negate x0, 1 :: int) else (x0, 0))
      in if c = FP_NAN then Some (Inr (Push_hstring_stridx DUK_STRIDX_NAN))
         else if c = FP_INFINITE then
           (if neg \<noteq> 0 then Some (Inr (Push_hstring_stridx DUK_STRIDX_MINUS_INFINITY))
            else Some (Inr (Push_hstring_stridx DUK_STRIDX_INFINITY)))
         else if c = FP_ZERO then Some (Inr (Push_hstring_stridx DUK_STRIDX_ZERO))
         else if radix = 10 \<and> uint_eq_double (double_to_uint x) x then
           Some (Inr (Push_sprintf (neg \<noteq> 0) (double_to_uint x)))
         else numconv_slow_path nc_alloc x radix neg)"

text \<open>
  A context with every field cleared, as the initial content of the local in the concrete
  runs of the conversion.
\<close>

definition nc_cleared :: duk_numconv_stringify_ctx where
  "nc_cleared =
     \<lparr>nc_f = [], nc_r = [], nc_s = [], nc_mp = [], nc_mm = [], nc_t1 = [], nc_t2 = [],
      nc_x = 0, nc_e = 0, nc_B = 0, nc_k = 0, nc_low_ok = 0, nc_high_ok = 0,
      nc_out_buf = [], nc_out_first = 0, nc_quotients = [], nc_emitted = []\<rparr>"

subsection \<open>The number a bigint stands for\<close>

fun bi_val :: "duk_bigint \<Rightarrow> nat" where
  "bi_val [] = 0"
| "bi_val (w # ws) = unat w + 2 ^ 32 * bi_val ws"

subsection \<open>Vocabulary of the statements\<close>

text \<open>
  The flag-adjusted comparisons of Scale and Generate: with \<open>high_ok\<close> set the upper
  boundary is exclusive and the lower one inclusive, without it the other way round.
\<close>

definition below_flag :: "int \<Rightarrow> nat \<Rightarrow> nat \<Rightarrow> bool" where
  "below_flag high_ok a b = (if high_ok \<noteq> 0 then a < b else a \<le> b)"

definition reaches_flag :: "int \<Rightarrow> nat \<Rightarrow> nat \<Rightarrow> bool" where
  "reaches_flag high_ok a b = (if high_ok \<noteq> 0 then b \<le> a else b < a)"

definition radix_ok :: "int \<Rightarrow> bool" where
  "radix_ok B = (2 \<le> B \<and> B \<le> 36)"

text \<open>
  The bounds of Scale in the words of the specification, \<open>B^(k-1) * s \<le> v < B^k * s\<close> with
  flag-adjusted boundaries, for a sum \<open>v = r + m+\<close>: as in the loops of Scale, with \<open>high_ok\<close>
  set the upper comparison is strict and the lower one is not, and without it the other
  way round. The exponent \<open>k\<close> can be negative, so the powers are taken in the reals.
\<close>

definition scale_bounds :: "int \<Rightarrow> int \<Rightarrow> int \<Rightarrow> nat \<Rightarrow> nat \<Rightarrow> bool" where
  "scale_bounds B high_ok k v s =
     (if high_ok \<noteq> 0 then
        real_of_int B powi (k - 1) * real s \<le> real v \<and> real v < real_of_int B powi k * real s
      else
        real_of_int B powi (k - 1) * real s < real v \<and> real v \<le> real_of_int B powi k * real s)"

text \<open>
  The outcome of a piece of code that only writes to the output buffer, from the context
  \<open>nc\<close>: either it ends with characters of the set \<open>A\<close> appended, or at a write past the end
  of the buffer; in both cases nothing but the buffer has changed.
\<close>

definition buf_writes ::
  "char set \<Rightarrow> duk_numconv_stringify_ctx \<Rightarrow> duk_numconv_stringify_ctx numconv_result \<Rightarrow> bool" where
  "buf_writes A nc res =
     ((\<exists>cs. res = Inr (nc\<lparr>nc_out_buf := nc_out_buf nc @ cs\<rparr>) \<and> set cs \<subseteq> A) \<or>
      (\<exists>b. res = Inl (Out_Buf_Overflow, nc\<lparr>nc_out_buf := b\<rparr>)))"

text \<open>
  The two ghost logs of a run of Generate, for the radix \<open>B\<close>: one quotient digit and one
  digit index passed to the emitter per round, at least one round, every quotient digit
  between \<open>0\<close> and \<open>B - 1\<close>, and the index passed on is the quotient digit, but for the last
  round, where it can be the quotient digit plus one.
\<close>

definition digits_logged :: "int \<Rightarrow> int list \<Rightarrow> int list \<Rightarrow> bool" where
  "digits_logged B qs ds =
     (ds \<noteq> [] \<and> length ds = length qs \<and> (\<forall>q \<in> set qs. 0 \<le> q \<and> q \<le> B - 1) \<and>
      butlast ds = butlast qs \<and> (last ds = last qs \<or> last ds = last qs + 1))"

text \<open>
  What a run of the Generate loop from the context \<open>nc\<close> and the counter \<open>count\<close> yields: it
  returns, its logs grow by \<open>qs\<close> and \<open>ds\<close>, and it ends either by a write past the end of
  the output buffer or with the counter advanced by the number of rounds and the
  characters \<open>cs\<close> appended to the buffer.
\<close>

definition generate_post ::
  "duk_numconv_stringify_ctx \<Rightarrow> int \<Rightarrow>
     (duk_numconv_stringify_ctx \<times> int) numconv_result option \<Rightarrow> bool" where
  "generate_post nc count res =
     (\<exists>nc' qs ds.
        nc_quotients nc' = nc_quotients nc @ qs \<and> nc_emitted nc' = nc_emitted nc @ ds \<and>
        digits_logged (nc_B nc) qs ds \<and>
        (res = Some (Inl (Out_Buf_Overflow, nc')) \<or>
         (\<exists>cs. res = Some (Inr (nc', count + int (length ds))) \<and>
            nc_out_buf nc' = nc_out_buf nc @ cs \<and> CHR 0x00 \<notin> set cs \<and>
            (\<exists>c \<in> set cs. c \<in> set digits) \<and>
            nc_k nc' = nc_k nc)))"

section \<open>The bigint operations compute on the numbers\<close>

lemma unat_u32_lt: "unat (w :: u32) < 2 ^ 32"
  using unsigned_less [of w, where 'a = nat] by simp

lemma unat_u64_lt: "unat (w :: u64) < 2 ^ 64"
  using unsigned_less [of w, where 'a = nat] by simp

lemma unat_ucast_32_64: "unat (ucast (w :: u32) :: u64) = unat w"
proof -
  have "unat w < 2 ^ 64" using unat_u32_lt [of w] by simp
  then show ?thesis by (simp add: unsigned_ucast_eq take_bit_nat_eq_self)
qed

lemma unat_low32: "unat (ucast ((t :: u64) AND 0xffffffff) :: u32) = unat t mod 2 ^ 32"
proof -
  have m: "(0xffffffff :: u64) = mask 32" by (simp add: mask_eq_exp_minus_1)
  have a: "t AND mask 32 = take_bit 32 t"
    by (simp only: take_bit_eq_mask)
  have b: "unat (ucast (take_bit 32 t) :: u32) = take_bit LENGTH(32) (unat (take_bit 32 t))"
    by (rule unsigned_ucast_eq)
  have c: "unat (take_bit 32 t) = take_bit 32 (unat t)"
    by (rule unsigned_take_bit_eq [of 32 t, where 'a = nat, simplified])
  have d: "take_bit LENGTH(32) (take_bit 32 (unat t)) = unat t mod 2 ^ 32"
    by (simp add: take_bit_eq_mod)
  show ?thesis unfolding m a b c d ..
qed

lemma unat_high32: "unat (drop_bit 32 (t :: u64)) = unat t div 2 ^ 32"
  by (metis drop_bit_eq_div unat_drop_bit_eq)

lemma bi_val_append: "bi_val (xs @ ys) = bi_val xs + 2 ^ (32 * length xs) * bi_val ys"
  by (induction xs) (simp_all add: algebra_simps power_add)

lemma bi_val_lt: "bi_val xs < 2 ^ (32 * length xs)"
proof (induction xs)
  case Nil
  show ?case by simp
next
  case (Cons w ws)
  have "unat w < 2 ^ 32" by (rule unat_u32_lt)
  moreover have "bi_val ws + 1 \<le> 2 ^ (32 * length ws)" using Cons by simp
  then have "2 ^ 32 * (bi_val ws + 1) \<le> (2 ^ 32 :: nat) * 2 ^ (32 * length ws)"
    by (rule mult_le_mono2)
  ultimately show ?case by (simp add: power_add)
qed

lemma bi_val_take_Suc:
  "i < length xs \<Longrightarrow> bi_val (take (Suc i) xs) = bi_val (take i xs) + 2 ^ (32 * i) * unat (xs ! i)"
  by (simp add: take_Suc_conv_app_nth bi_val_append)

lemma bi_val_replicate0: "bi_val (replicate n 0) = 0"
  by (induction n) simp_all

lemma bi_val_update:
  "k < length xs \<Longrightarrow>
     bi_val (xs[k := w]) + 2 ^ (32 * k) * unat (xs ! k) = bi_val xs + 2 ^ (32 * k) * unat w"
proof (induction xs arbitrary: k)
  case Nil
  then show ?case by simp
next
  case (Cons a xs)
  show ?case
  proof (cases k)
    case 0
    then show ?thesis by simp
  next
    case (Suc j)
    with Cons.prems have "j < length xs" by simp
    from Cons.IH [OF this] have
      "2 ^ 32 * (bi_val (xs[j := w]) + 2 ^ (32 * j) * unat (xs ! j)) =
       2 ^ 32 * (bi_val xs + 2 ^ (32 * j) * unat w)" by simp
    then show ?thesis using Suc by (simp add: algebra_simps power_add)
  qed
qed



lemma bi_normalize_scan_le: "bi_normalize_scan x i \<le> i"
  by (induction i) simp_all

lemma bi_normalize_scan_zero:
  "bi_normalize_scan x i \<le> j \<Longrightarrow> j < i \<Longrightarrow> x ! j = 0"
proof (induction i)
  case 0
  then show ?case by simp
next
  case (Suc i)
  then show ?case by (cases "j = i") (auto split: if_splits)
qed

lemma bi_normalize_scan_top:
  "bi_normalize_scan x i = Suc j \<Longrightarrow> x ! j \<noteq> 0"
  by (induction i) (auto split: if_splits)

lemma bi_val_take_zero:
  "m \<le> length x \<Longrightarrow> (\<And>j. m \<le> j \<Longrightarrow> j < length x \<Longrightarrow> x ! j = 0) \<Longrightarrow> bi_val (take m x) = bi_val x"
proof (induction "length x - m" arbitrary: m)
  case 0
  then show ?case by simp
next
  case (Suc d)
  then have lt: "m < length x" by simp
  have "bi_val (take (Suc m) x) = bi_val x"
    using Suc by (intro Suc.hyps(1)) auto
  moreover have "x ! m = 0" using Suc.prems lt by simp
  ultimately show ?case using bi_val_take_Suc [OF lt] by simp
qed

lemma bi_val_normalize: "bi_val (bi_normalize x) = bi_val x"
  unfolding bi_normalize_def
  by (rule bi_val_take_zero) (auto intro: bi_normalize_scan_le bi_normalize_scan_zero)

lemma bi_is_normalized_normalize: "bi_is_normalized (bi_normalize x)"
proof (cases "bi_normalize_scan x (length x)")
  case 0
  then show ?thesis by (simp add: bi_normalize_def bi_is_normalized_def)
next
  case (Suc j)
  have le: "Suc j \<le> length x" using bi_normalize_scan_le [of x "length x"] Suc by simp
  have "x ! j \<noteq> 0" using Suc by (rule bi_normalize_scan_top)
  then show ?thesis using Suc le by (simp add: bi_normalize_def bi_is_normalized_def min_def)
qed

lemma bi_normalize_length: "length (bi_normalize x) \<le> length x"
  by (simp add: bi_normalize_def)

lemma bi_is_normalized_ge:
  assumes "bi_is_normalized x" "x \<noteq> []"
  shows "2 ^ (32 * (length x - 1)) \<le> bi_val x"
proof -
  from assms obtain ys w where x: "x = ys @ [w]" by (metis rev_exhaust)
  with assms have "w \<noteq> 0" by (simp add: bi_is_normalized_def nth_append)
  then have "1 \<le> unat w" by (simp add: unat_gt_0 Suc_leI)
  then have "(2::nat) ^ (32 * length ys) \<le> 2 ^ (32 * length ys) * unat w"
    by simp
  then have "(2::nat) ^ (32 * length ys) \<le> bi_val ys + 2 ^ (32 * length ys) * unat w"
    by (rule trans_le_add2)
  then show ?thesis by (simp add: x bi_val_append)
qed

lemma bi_is_normalized_by_val:
  assumes "x \<noteq> []" "2 ^ (32 * (length x - 1)) \<le> bi_val x"
  shows "bi_is_normalized x"
proof -
  from assms obtain ys w where x: "x = ys @ [w]" by (metis rev_exhaust)
  have "w \<noteq> 0"
  proof
    assume "w = 0"
    then have "bi_val x = bi_val ys" by (simp add: x bi_val_append)
    then show False using bi_val_lt [of ys] assms(2) by (simp add: x)
  qed
  then show ?thesis by (simp add: x bi_is_normalized_def nth_append)
qed

lemma bi_val_zero_iff: "bi_is_normalized x \<Longrightarrow> bi_val x = 0 \<longleftrightarrow> x = []"
proof (cases "x = []")
  case True
  then show ?thesis by simp
next
  case False
  assume "bi_is_normalized x"
  then have "2 ^ (32 * (length x - 1)) \<le> bi_val x" using False by (rule bi_is_normalized_ge)
  moreover have "(0::nat) < 2 ^ (32 * (length x - 1))" by simp
  ultimately have "0 < bi_val x" by (rule less_le_trans [rotated])
  then show ?thesis using False by simp
qed

lemma bi_length_mono:
  assumes "bi_is_normalized y" "length x < length y"
  shows "bi_val x < bi_val y"
proof -
  have "y \<noteq> []" using assms by auto
  then have "2 ^ (32 * (length y - 1)) \<le> bi_val y" using assms by (intro bi_is_normalized_ge)
  moreover have "(2::nat) ^ (32 * length x) \<le> 2 ^ (32 * (length y - 1))"
    using assms by (intro power_increasing) auto
  ultimately show ?thesis using bi_val_lt [of x] by linarith
qed

lemma bi_compare_loop_eq:
  "i \<le> length x \<Longrightarrow> i \<le> length y \<Longrightarrow>
   bi_compare_loop x y i =
     (if bi_val (take i x) > bi_val (take i y) then 1
      else if bi_val (take i x) < bi_val (take i y) then - 1 else 0)"
proof (induction i)
  case 0
  then show ?case by simp
next
  case (Suc i)
  have lx: "i < length x" and ly: "i < length y" using Suc.prems by auto
  have bx: "bi_val (take i x) < 2 ^ (32 * i)" using bi_val_lt [of "take i x"] lx by (simp add: min_def)
  have by': "bi_val (take i y) < 2 ^ (32 * i)" using bi_val_lt [of "take i y"] ly by (simp add: min_def)
  show ?case
  proof (cases "x ! i = y ! i")
    case True
    then show ?thesis using Suc lx ly by (simp add: bi_val_take_Suc)
  next
    case False
    show ?thesis
    proof (cases "x ! i < y ! i")
      case True
      then have "unat (x ! i) + 1 \<le> unat (y ! i)" by (simp add: word_less_nat_alt)
      then have "2 ^ (32 * i) * (unat (x ! i) + 1) \<le> 2 ^ (32 * i) * unat (y ! i)"
        by (rule mult_le_mono2)
      then have "bi_val (take (Suc i) x) < bi_val (take (Suc i) y)"
        using bx by (simp add: bi_val_take_Suc lx ly)
      then show ?thesis using True by auto
    next
      case F2: False
      with False have gt: "y ! i < x ! i" by auto
      then have "unat (y ! i) + 1 \<le> unat (x ! i)" by (simp add: word_less_nat_alt)
      then have "2 ^ (32 * i) * (unat (y ! i) + 1) \<le> 2 ^ (32 * i) * unat (x ! i)"
        by (rule mult_le_mono2)
      then have "bi_val (take (Suc i) y) < bi_val (take (Suc i) x)"
        using by' by (simp add: bi_val_take_Suc lx ly)
      then show ?thesis using gt by auto
    qed
  qed
qed

lemma bi_compare_eq:
  assumes "bi_is_normalized x" "bi_is_normalized y"
  shows "bi_compare x y =
     (if bi_val x > bi_val y then 1 else if bi_val x < bi_val y then - 1 else 0)"
proof -
  consider "length x > length y" | "length x < length y" | "length x = length y" by linarith
  then show ?thesis
  proof cases
    case 1
    then show ?thesis using bi_length_mono [OF assms(1) 1] by (simp add: bi_compare_def)
  next
    case 2
    then show ?thesis using bi_length_mono [OF assms(2) 2] by (simp add: bi_compare_def)
  next
    case 3
    then show ?thesis using bi_compare_loop_eq [of "length x" x y] by (simp add: bi_compare_def)
  qed
qed




lemma unat_add_u64: "unat (a :: u64) + unat b < 2 ^ 64 \<Longrightarrow> unat (a + b) = unat a + unat b"
proof -
  assume "unat a + unat b < 2 ^ 64"
  moreover have "unat (a + b) = (unat a + unat b) mod 2 ^ 64"
    using unat_word_ariths(1) [of a b] by simp
  ultimately show ?thesis by simp
qed

lemma unat_mult_u64: "unat (a :: u64) * unat b < 2 ^ 64 \<Longrightarrow> unat (a * b) = unat a * unat b"
proof -
  assume "unat a * unat b < 2 ^ 64"
  moreover have "unat (a * b) = (unat a * unat b) mod 2 ^ 64"
    using unat_word_ariths(2) [of a b] by simp
  ultimately show ?thesis by simp
qed

lemma add_step1:
  assumes "unat (tmp :: u64) \<le> 1"
  shows "unat (tmp + ucast (a :: u32)) = unat tmp + unat a"
proof -
  have "unat tmp + unat (ucast a :: u64) < 2 ^ 64"
    using assms unat_u32_lt [of a] by (simp add: unat_ucast_32_64)
  then show ?thesis using unat_add_u64 [of tmp "ucast a"] by (simp add: unat_ucast_32_64)
qed

lemma add_step2:
  assumes "unat (tmp :: u64) \<le> 1"
  shows "unat (tmp + ucast (a :: u32) + ucast (b :: u32)) = unat tmp + unat a + unat b"
proof -
  have "unat (tmp + ucast a) + unat (ucast b :: u64) < 2 ^ 64"
    using assms unat_u32_lt [of a] unat_u32_lt [of b] by (simp add: unat_ucast_32_64 add_step1)
  then show ?thesis using unat_add_u64 [of "tmp + ucast a" "ucast b"] assms
    by (simp add: unat_ucast_32_64 add_step1)
qed




lemma low_high_u64: "unat (ucast ((t :: u64) AND 0xffffffff) :: u32) + 2 ^ 32 * unat (drop_bit 32 t) = unat t"
  unfolding unat_low32 unat_high32 by simp

lemma bi_add_loop_inv:
  "bi_add_loop x y i tmp z = (z', tmp') \<Longrightarrow> length z = i \<Longrightarrow> i \<le> length x \<Longrightarrow> unat tmp \<le> 1 \<Longrightarrow>
   length z' = length x \<and> unat tmp' \<le> 1 \<and>
   bi_val z' + 2 ^ (32 * length x) * unat tmp' + (bi_val (take i x) + bi_val (take i y)) =
     bi_val z + 2 ^ (32 * i) * unat tmp + (bi_val x + bi_val (take (length x) y))"
proof (induction x y i tmp z rule: bi_add_loop.induct)
  case (1 x y i tmp z)
  show ?case
  proof (cases "i < length x")
    case False
    then have "bi_add_loop x y i tmp z = (z, tmp)" by (subst bi_add_loop.simps) simp
    with 1 False show ?thesis by simp
  next
    case True
    define yi where "yi = (if i < length y then unat (y ! i) else 0)"
    define tmp1 where "tmp1 = tmp + ucast (x ! i)"
    define tmp2 where "tmp2 = (if i < length y then tmp1 + ucast (y ! i) else tmp1)"
    define L :: u32 where "L = ucast (tmp2 AND 0xffffffff)"
    define H :: u64 where "H = drop_bit 32 tmp2"
    have xi: "unat (x ! i) < 2 ^ 32" and yil: "yi < 2 ^ 32"
      using unat_u32_lt [of "x ! i"] unat_u32_lt [of "y ! i"] by (simp_all add: yi_def)
    have t2: "unat tmp2 = unat tmp + unat (x ! i) + yi"
      using add_step1 [OF "1.prems"(4)] add_step2 [OF "1.prems"(4)]
      by (simp add: tmp2_def tmp1_def yi_def)
    have rec: "bi_add_loop x y (i + 1) H (z @ [L]) = (z', tmp')"
      using "1.prems"(1) True
      by (subst (asm) bi_add_loop.simps) (cases "i < length y"; simp add: tmp2_def tmp1_def Let_def H_def L_def)
    have "unat tmp2 < 2 * 2 ^ 32" using "1.prems"(4) xi yil t2 by simp
    then have "unat tmp2 div 2 ^ 32 < 2" by (simp only: div_less_iff_less_mult zero_less_numeral zero_less_power)
    then have hi: "unat H \<le> 1" unfolding H_def unat_high32 by simp
    have LH: "unat L + 2 ^ 32 * unat H = unat tmp2"
      unfolding L_def H_def by (rule low_high_u64)
    have IH: "length z' = length x \<and> unat tmp' \<le> 1 \<and>
       bi_val z' + 2 ^ (32 * length x) * unat tmp' + (bi_val (take (i + 1) x) + bi_val (take (i + 1) y)) =
       bi_val (z @ [L]) + 2 ^ (32 * (i + 1)) * unat H + (bi_val x + bi_val (take (length x) y))"
      using True "1.prems"(2) hi rec unfolding H_def L_def tmp2_def tmp1_def
      by (intro "1.IH" [OF True refl refl]) auto
    have zL: "bi_val (z @ [L]) + 2 ^ (32 * (i + 1)) * unat H = bi_val z + 2 ^ (32 * i) * unat tmp2"
      using "1.prems"(2) LH [symmetric] by (simp add: bi_val_append algebra_simps power_add)
    have tx: "bi_val (take (i + 1) x) = bi_val (take i x) + 2 ^ (32 * i) * unat (x ! i)"
      using bi_val_take_Suc [OF True] by simp
    have ty: "bi_val (take (i + 1) y) = bi_val (take i y) + 2 ^ (32 * i) * yi"
      using bi_val_take_Suc [of i y] by (cases "i < length y") (simp_all add: yi_def)
    from IH show ?thesis unfolding zL tx ty t2 by (simp add: algebra_simps)
  qed
qed




lemma bi_add_loop_start:
  assumes "bi_add_loop x y 0 0 [] = (z, tmp)" "length y \<le> length x"
  shows "length z = length x \<and> unat tmp \<le> 1 \<and> bi_val z + 2 ^ (32 * length x) * unat tmp = bi_val x + bi_val y"
  using bi_add_loop_inv [OF assms(1)] assms(2) by simp

lemma bi_add_ordered:
  assumes "length y \<le> length x"
  defines "r \<equiv> (case bi_add_loop x y 0 0 [] of (z, tmp) \<Rightarrow> if tmp \<noteq> 0 then z @ [ucast tmp :: u32] else z)"
  shows "bi_val r = bi_val x + bi_val y" and "bi_is_normalized x \<Longrightarrow> bi_is_normalized r"
proof -
  obtain z tmp where l: "bi_add_loop x y 0 0 [] = (z, tmp)" by (cases "bi_add_loop x y 0 0 []")
  note inv = bi_add_loop_start [OF l assms(1)]
  have r: "r = (if tmp \<noteq> 0 then z @ [ucast tmp] else z)" by (simp add: r_def l)
  have uc: "unat (ucast tmp :: u32) = unat tmp"
    using inv by (simp add: unsigned_ucast_eq take_bit_nat_eq_self)
  show v: "bi_val r = bi_val x + bi_val y"
  proof (cases "tmp = 0")
    case True
    then show ?thesis using inv by (simp add: r)
  next
    case False
    then show ?thesis using inv uc by (simp add: r bi_val_append)
  qed
  show "bi_is_normalized r" if nx: "bi_is_normalized x"
  proof (cases "tmp = 0")
    case False
    then have "unat tmp \<noteq> 0" by (simp add: unat_eq_0)
    then have "(ucast tmp :: u32) \<noteq> 0" using uc by (metis unat_eq_0)
    then show ?thesis using False by (simp add: r bi_is_normalized_def)
  next
    case True
    show ?thesis
    proof (cases "x = []")
      case True
      then show ?thesis using inv \<open>tmp = 0\<close> by (simp add: r bi_is_normalized_def)
    next
      case False
      then have "2 ^ (32 * (length x - 1)) \<le> bi_val x" using nx by (intro bi_is_normalized_ge)
      then have "2 ^ (32 * (length z - 1)) \<le> bi_val z" using inv True by simp
      moreover have "z \<noteq> []" using inv False by auto
      ultimately show ?thesis using True by (simp add: r bi_is_normalized_by_val)
    qed
  qed
qed

lemma bi_val_add: "bi_val (bi_add x y) = bi_val x + bi_val y"
proof (cases "length y > length x")
  case True
  then show ?thesis using bi_add_ordered(1) [of x y] by (simp add: bi_add_def)
next
  case False
  then show ?thesis using bi_add_ordered(1) [of y x] by (simp add: bi_add_def)
qed

lemma bi_add_normalized:
  "bi_is_normalized x \<Longrightarrow> bi_is_normalized y \<Longrightarrow> bi_is_normalized (bi_add x y)"
proof (cases "length y > length x")
  case True
  assume "bi_is_normalized y"
  then show ?thesis using True bi_add_ordered(2) [of x y] by (simp add: bi_add_def)
next
  case False
  assume "bi_is_normalized x"
  then show ?thesis using False bi_add_ordered(2) [of y x] by (simp add: bi_add_def)
qed

lemma int_unat_u32_lt: "int (unat (w :: u32)) < 2 ^ 32"
  using unsigned_less [of w, where 'a = int] by simp

lemma div_2p32_cases: "- (2 ^ 32) \<le> (a::int) \<Longrightarrow> a < 2 ^ 32 \<Longrightarrow> a div 2 ^ 32 = 0 \<or> a div 2 ^ 32 = - 1"
  by auto

lemma sub_range:
  fixes a b :: nat and c :: int
  assumes "a < 2 ^ 32" "b < 2 ^ 32" "c = 0 \<or> c = - 1"
  shows "- (2 ^ 32) \<le> int a - int b + c" "int a - int b + c < 2 ^ 32"
  using assms by auto

lemma sub_step_sint:
  fixes tx ty :: u32 and tmp :: u64
  assumes "sint tmp = 0 \<or> sint tmp = - 1"
  shows "sint (ucast tx - ucast ty + tmp) = int (unat tx) - int (unat ty) + sint tmp"
proof -
  define k where "k = int (unat tx) - int (unat ty) + sint tmp"
  have eq: "ucast tx - ucast ty + tmp = (word_of_int k :: u64)"
    by (simp add: k_def)
  have "- (2 ^ 32) \<le> k" "k < 2 ^ 32" unfolding k_def
    by (rule sub_range [OF unat_u32_lt unat_u32_lt assms])+
  then have "- (2 ^ 63) \<le> k" "k < 2 ^ 63" by simp_all
  then have "signed_take_bit 63 k = k" by (rule signed_take_bit_int_eq_self)
  then have "sint (word_of_int k :: u64) = k" by (simp add: sint_sbintrunc')
  then show ?thesis by (simp only: eq k_def)
qed

lemma low32_sint: "int (unat (ucast ((t :: u64) AND 0xffffffff) :: u32)) = sint t mod 2 ^ 32"
proof -
  have "int (unat t mod 2 ^ 32) = uint t mod 2 ^ 32" by (simp add: zmod_int)
  moreover have "uint t = sint t mod 2 ^ 64" using uint_sint [of t] by (simp add: take_bit_eq_mod)
  moreover have "(sint t mod 2 ^ 64) mod 2 ^ 32 = sint t mod 2 ^ 32"
    by (rule mod_mod_cancel) simp
  ultimately show ?thesis by (simp only: unat_low32)
qed

lemma high32_sint: "sint (signed_drop_bit 32 (t :: u64)) = sint t div 2 ^ 32"
  by (simp add: sint_signed_drop_bit_eq drop_bit_eq_div)

lemma low_high_sint:
  "int (unat (ucast ((t :: u64) AND 0xffffffff) :: u32)) + 2 ^ 32 * sint (signed_drop_bit 32 t) = sint t"
  unfolding low32_sint high32_sint by simp

lemma bi_sub_loop_inv:
  "length z = i \<Longrightarrow> i \<le> length x \<Longrightarrow> sint tmp = 0 \<or> sint tmp = - 1 \<Longrightarrow>
   \<exists>b. (b = 0 \<or> b = - 1) \<and> length (bi_sub_loop x y i tmp z) = length x \<and>
     int (bi_val (bi_sub_loop x y i tmp z)) + 2 ^ (32 * length x) * b
       + (int (bi_val (take i x)) - int (bi_val (take i y))) =
     int (bi_val z) + 2 ^ (32 * i) * sint tmp
       + (int (bi_val x) - int (bi_val (take (length x) y)))"
proof (induction x y i tmp z rule: bi_sub_loop.induct)
  case (1 x y i tmp z)
  show ?case
  proof (cases "i < length x")
    case False
    then have "bi_sub_loop x y i tmp z = z" by (subst bi_sub_loop.simps) simp
    with 1 False show ?thesis by auto
  next
    case True
    define ty where "ty = (if i < length y then y ! i else 0)"
    define tmp1 where "tmp1 = ucast (x ! i) - ucast ty + tmp"
    define L :: u32 where "L = ucast (tmp1 AND 0xffffffff)"
    define H :: u64 where "H = signed_drop_bit 32 tmp1"
    have t1: "sint tmp1 = int (unat (x ! i)) - int (unat ty) + sint tmp"
      unfolding tmp1_def by (rule sub_step_sint [OF "1.prems"(3)])
    have rec: "bi_sub_loop x y i tmp z = bi_sub_loop x y (i + 1) H (z @ [L])"
      using True
      by (subst bi_sub_loop.simps) (simp add: tmp1_def ty_def Let_def H_def L_def)
    have "- (2 ^ 32) \<le> sint tmp1" "sint tmp1 < 2 ^ 32" unfolding t1
      by (rule sub_range [OF unat_u32_lt unat_u32_lt "1.prems"(3)])+
    then have hi: "sint H = 0 \<or> sint H = - 1" unfolding H_def high32_sint
      by (rule div_2p32_cases)
    have LH: "int (unat L) + 2 ^ 32 * sint H = sint tmp1"
      unfolding L_def H_def by (rule low_high_sint)
    have "\<exists>b. (b = 0 \<or> b = - 1) \<and> length (bi_sub_loop x y (i + 1) H (z @ [L])) = length x \<and>
       int (bi_val (bi_sub_loop x y (i + 1) H (z @ [L]))) + 2 ^ (32 * length x) * b
         + (int (bi_val (take (i + 1) x)) - int (bi_val (take (i + 1) y))) =
       int (bi_val (z @ [L])) + 2 ^ (32 * (i + 1)) * sint H
         + (int (bi_val x) - int (bi_val (take (length x) y)))"
      using True "1.prems"(1) hi unfolding H_def L_def tmp1_def ty_def
      by (intro "1.IH" [OF True refl refl refl]) auto
    then obtain b where b: "b = 0 \<or> b = - 1" 
      and len: "length (bi_sub_loop x y (i + 1) H (z @ [L])) = length x"
      and IH: "int (bi_val (bi_sub_loop x y (i + 1) H (z @ [L]))) + 2 ^ (32 * length x) * b
         + (int (bi_val (take (i + 1) x)) - int (bi_val (take (i + 1) y))) =
       int (bi_val (z @ [L])) + 2 ^ (32 * (i + 1)) * sint H
         + (int (bi_val x) - int (bi_val (take (length x) y)))" by blast
    have zL: "int (bi_val (z @ [L])) + 2 ^ (32 * (i + 1)) * sint H = int (bi_val z) + 2 ^ (32 * i) * sint tmp1"
      using "1.prems"(1) LH [symmetric] by (simp add: bi_val_append algebra_simps power_add)
    have tx: "int (bi_val (take (i + 1) x)) = int (bi_val (take i x)) + 2 ^ (32 * i) * int (unat (x ! i))"
      using bi_val_take_Suc [OF True] by simp
    have ty: "int (bi_val (take (i + 1) y)) = int (bi_val (take i y)) + 2 ^ (32 * i) * int (unat ty)"
      using bi_val_take_Suc [of i y] by (cases "i < length y") (simp_all add: ty_def)
    from IH have "int (bi_val (bi_sub_loop x y i tmp z)) + 2 ^ (32 * length x) * b
       + (int (bi_val (take i x)) - int (bi_val (take i y))) =
     int (bi_val z) + 2 ^ (32 * i) * sint tmp
       + (int (bi_val x) - int (bi_val (take (length x) y)))"
      unfolding zL tx ty t1 rec by (simp add: algebra_simps)
    with b len show ?thesis unfolding rec by blast
  qed
qed




lemma bi_sub_loop_start:
  assumes "length y \<le> length x" "bi_val y \<le> bi_val x"
  shows "length (bi_sub_loop x y 0 0 []) = length x"
    and "bi_val (bi_sub_loop x y 0 0 []) = bi_val x - bi_val y"
proof -
  let ?z = "bi_sub_loop x y 0 0 []"
  from bi_sub_loop_inv [of "[]" 0 x 0 y] assms(1)
  obtain b where b: "b = 0 \<or> b = - 1" and len: "length ?z = length x"
    and eq: "int (bi_val ?z) + 2 ^ (32 * length x) * b = int (bi_val x) - int (bi_val y)"
    by auto
  show "length ?z = length x" by (rule len)
  define P where "P = (2::nat) ^ (32 * length x)"
  have lt: "bi_val ?z < P" using bi_val_lt [of ?z] len by (simp add: P_def)
  have eq': "int (bi_val ?z) + int P * b = int (bi_val x) - int (bi_val y)"
    using eq by (simp add: P_def)
  have "b = 0"
  proof (rule ccontr)
    assume "b \<noteq> 0"
    with b have "b = - 1" by simp
    with eq' have "int (bi_val ?z) - int P = int (bi_val x) - int (bi_val y)" by simp
    with lt assms(2) show False by linarith
  qed
  with eq' have "int (bi_val ?z) = int (bi_val x) - int (bi_val y)" by simp
  then show "bi_val ?z = bi_val x - bi_val y" using assms(2) by linarith
qed

lemma bi_val_sub:
  assumes "bi_is_normalized y" "bi_val y \<le> bi_val x"
  shows "bi_val (bi_sub x y) = bi_val x - bi_val y"
proof -
  have "length y \<le> length x"
  proof (rule ccontr)
    assume "\<not> length y \<le> length x"
    then have "bi_val x < bi_val y" using assms(1) by (intro bi_length_mono) auto
    with assms(2) show False by simp
  qed
  then show ?thesis using assms(2) by (simp add: bi_sub_def bi_val_normalize bi_sub_loop_start)
qed

lemma bi_sub_normalized: "bi_is_normalized (bi_sub x y)"
  by (simp add: bi_sub_def bi_is_normalized_normalize)

lemma bi_val_ge_limb: "k < length z \<Longrightarrow> 2 ^ (32 * k) * unat (z ! k) \<le> bi_val z"
proof -
  assume k: "k < length z"
  have "bi_val z = bi_val (take (Suc k) z @ drop (Suc k) z)" by simp
  also have "\<dots> = bi_val (take (Suc k) z) + 2 ^ (32 * length (take (Suc k) z)) * bi_val (drop (Suc k) z)"
    by (rule bi_val_append)
  finally have "bi_val (take (Suc k) z) \<le> bi_val z" by simp
  then show ?thesis using bi_val_take_Suc [OF k] by simp
qed

lemma mul_step_bound:
  fixes a b c t :: nat
  assumes "a < 2 ^ 32" "b < 2 ^ 32" "c < 2 ^ 32" "t < 2 ^ 32"
  shows "t + (a * b + c) < 2 ^ 64"
proof -
  have "a * b \<le> (2 ^ 32 - 1) * (2 ^ 32 - 1)"
    using assms by (intro mult_le_mono) simp_all
  then show ?thesis using assms by simp
qed

lemma mul_step_unat:
  fixes xi yj zk :: u32 and tmp :: u64
  assumes "unat tmp < 2 ^ 32"
  shows "unat (tmp + (ucast xi * ucast yj + ucast zk)) = unat tmp + (unat xi * unat yj + unat zk)"
proof -
  have b: "unat tmp + (unat xi * unat yj + unat zk) < 2 ^ 64"
    by (rule mul_step_bound [OF unat_u32_lt unat_u32_lt unat_u32_lt assms])
  then have m: "unat (ucast xi * ucast yj :: u64) = unat xi * unat yj"
    by (subst unat_mult_u64) (simp_all add: unat_ucast_32_64)
  have s: "unat (ucast xi * ucast yj + ucast zk :: u64) = unat xi * unat yj + unat zk"
    using b by (subst unat_add_u64) (simp_all add: unat_ucast_32_64 m)
  show ?thesis using b by (subst unat_add_u64) (simp_all add: s)
qed




lemma bi_mul_inner_inv:
  "bi_mul_inner xi y i j tmp z = (z', tmp') \<Longrightarrow> j \<le> length y \<Longrightarrow> i + length y \<le> length z \<Longrightarrow>
   unat tmp < 2 ^ 32 \<Longrightarrow>
   length z' = length z \<and> unat tmp' < 2 ^ 32 \<and>
   bi_val z' + 2 ^ (32 * (i + length y)) * unat tmp' + 2 ^ (32 * i) * (unat xi * bi_val (take j y)) =
     bi_val z + 2 ^ (32 * (i + j)) * unat tmp + 2 ^ (32 * i) * (unat xi * bi_val y)"
proof (induction xi y i j tmp z rule: bi_mul_inner.induct)
  case (1 xi y i j tmp z)
  show ?case
  proof (cases "j < length y")
    case False
    then have "bi_mul_inner xi y i j tmp z = (z, tmp)" by (subst bi_mul_inner.simps) simp
    with 1 False show ?thesis by simp
  next
    case True
    define tmp1 where "tmp1 = tmp + (ucast xi * ucast (y ! j) + ucast (z ! (i + j)))"
    define L :: u32 where "L = ucast (tmp1 AND 0xffffffff)"
    define H :: u64 where "H = drop_bit 32 tmp1"
    define P where "P = (2::nat) ^ (32 * (i + j))"
    have k: "i + j < length z" using True "1.prems"(3) by simp
    have t1: "unat tmp1 = unat tmp + (unat xi * unat (y ! j) + unat (z ! (i + j)))"
      unfolding tmp1_def by (rule mul_step_unat [OF "1.prems"(4)])
    have rec: "bi_mul_inner xi y i (j + 1) H (z[i + j := L]) = (z', tmp')"
      using "1.prems"(1) True
      by (subst (asm) bi_mul_inner.simps) (simp add: tmp1_def Let_def H_def L_def)
    have "unat tmp1 < 2 ^ 32 * 2 ^ 32" using unat_u64_lt [of tmp1] by simp
    then have hi: "unat H < 2 ^ 32" unfolding H_def unat_high32
      by (simp only: div_less_iff_less_mult zero_less_numeral zero_less_power)
    have LH: "unat L + 2 ^ 32 * unat H = unat tmp1"
      unfolding L_def H_def by (rule low_high_u64)
    have IH: "length z' = length (z[i + j := L]) \<and> unat tmp' < 2 ^ 32 \<and>
       bi_val z' + 2 ^ (32 * (i + length y)) * unat tmp' + 2 ^ (32 * i) * (unat xi * bi_val (take (j + 1) y)) =
       bi_val (z[i + j := L]) + 2 ^ (32 * (i + (j + 1))) * unat H + 2 ^ (32 * i) * (unat xi * bi_val y)"
      using True "1.prems"(3) hi rec unfolding H_def L_def tmp1_def
      by (intro "1.IH" [OF True refl]) auto
    have upd: "bi_val (z[i + j := L]) + P * unat (z ! (i + j)) = bi_val z + P * unat L"
      unfolding P_def by (rule bi_val_update [OF k])
    have "P * unat L + P * 2 ^ 32 * unat H = P * unat tmp1"
      using LH [symmetric] by (simp add: algebra_simps)
    then have "P * unat L + P * 2 ^ 32 * unat H =
        P * unat tmp + P * (unat xi * unat (y ! j)) + P * unat (z ! (i + j))"
      unfolding t1 by (simp add: algebra_simps)
    with upd have zL: "bi_val (z[i + j := L]) + P * 2 ^ 32 * unat H =
        bi_val z + P * unat tmp + P * (unat xi * unat (y ! j))"
      by linarith
    have P32: "2 ^ (32 * (i + (j + 1))) = P * 2 ^ 32" by (simp add: P_def power_add)
    have Pij: "P = 2 ^ (32 * i) * 2 ^ (32 * j)" by (simp add: P_def power_add algebra_simps)
    have ty: "2 ^ (32 * i) * (unat xi * bi_val (take (j + 1) y)) =
        2 ^ (32 * i) * (unat xi * bi_val (take j y)) + P * (unat xi * unat (y ! j))"
      using bi_val_take_Suc [OF True] by (simp add: Pij algebra_simps)
    from IH have "bi_val z' + 2 ^ (32 * (i + length y)) * unat tmp'
        + 2 ^ (32 * i) * (unat xi * bi_val (take j y)) =
       bi_val z + P * unat tmp + 2 ^ (32 * i) * (unat xi * bi_val y)"
      unfolding P32 ty using zL by linarith
    with IH show ?thesis by (simp add: P_def)
  qed
qed




lemma unat_add_u32: "unat (a :: u32) + unat b < 2 ^ 32 \<Longrightarrow> unat (a + b) = unat a + unat b"
proof -
  assume "unat a + unat b < 2 ^ 32"
  moreover have "unat (a + b) = (unat a + unat b) mod 2 ^ 32"
    using unat_word_ariths(1) [of a b] by simp
  ultimately show ?thesis by simp
qed

lemma unat_ucast_64_32: "unat (t :: u64) < 2 ^ 32 \<Longrightarrow> unat (ucast t :: u32) = unat t"
  by (simp add: unsigned_ucast_eq take_bit_nat_eq_self)

lemma bi_val_take_lt: "bi_val (take n x) < 2 ^ (32 * n)"
proof -
  have "(2::nat) ^ (32 * length (take n x)) \<le> 2 ^ (32 * n)"
    by (rule power_increasing) simp_all
  then show ?thesis using bi_val_lt [of "take n x"] by (rule less_le_trans [rotated])
qed

lemma bi_mul_outer_inv:
  "i \<le> length x \<Longrightarrow> length z = length x + length y \<Longrightarrow> bi_val z = bi_val (take i x) * bi_val y \<Longrightarrow>
   length (bi_mul_outer x y i z) = length x + length y \<and>
   bi_val (bi_mul_outer x y i z) = bi_val x * bi_val y"
proof (induction x y i z rule: bi_mul_outer.induct)
  case (1 x y i z)
  show ?case
  proof (cases "i < length x")
    case False
    then have "bi_mul_outer x y i z = z" by (subst bi_mul_outer.simps) simp
    with 1 False show ?thesis by simp
  next
    case True
    obtain z1 tmp where inner: "bi_mul_inner (x ! i) y i 0 0 z = (z1, tmp)"
      by (cases "bi_mul_inner (x ! i) y i 0 0 z")
    define k where "k = i + length y"
    define P where "P = (2::nat) ^ (32 * k)"
    define z2 where "z2 = (if tmp > 0 then z1[k := z1 ! k + ucast tmp] else z1)"
    define V where "V = bi_val (take (i + 1) x) * bi_val y"
    have rec: "bi_mul_outer x y i z = bi_mul_outer x y (i + 1) z2"
      using True by (subst bi_mul_outer.simps) (simp add: inner z2_def k_def)
    from bi_mul_inner_inv [OF inner] True "1.prems"(2)
    have len1: "length z1 = length z" and tl: "unat tmp < 2 ^ 32"
      and eq: "bi_val z1 + P * unat tmp = bi_val z + 2 ^ (32 * i) * (unat (x ! i) * bi_val y)"
      by (simp_all add: P_def k_def)
    have V1: "bi_val z1 + P * unat tmp = V"
      unfolding eq V_def "1.prems"(3) using bi_val_take_Suc [OF True]
      by (simp add: algebra_simps)
    have kz: "k < length z1" using True "1.prems"(2) len1 by (simp add: k_def)
    have "bi_val (take (i + 1) x) < 2 ^ (32 * (i + 1))"
      by (rule bi_val_take_lt)
    moreover have "bi_val y < 2 ^ (32 * length y)" by (rule bi_val_lt)
    ultimately have "V < 2 ^ (32 * (i + 1)) * 2 ^ (32 * length y)"
      unfolding V_def by (intro mult_strict_mono) simp_all
    also have "\<dots> = P * 2 ^ 32" by (simp add: P_def k_def power_add algebra_simps)
    finally have Vlt: "V < P * 2 ^ 32" .
    have "P * unat (z1 ! k) \<le> bi_val z1" unfolding P_def by (rule bi_val_ge_limb [OF kz])
    then have "P * (unat (z1 ! k) + unat tmp) < P * 2 ^ 32"
      using V1 Vlt by (simp add: algebra_simps)
    then have sum: "unat (z1 ! k) + unat tmp < 2 ^ 32" by simp
    have v2: "bi_val z2 = V"
    proof (cases "tmp > 0")
      case False
      then have "unat tmp = 0" by (simp add: word_greater_zero_iff unat_eq_0)
      then show ?thesis using False V1 by (simp add: z2_def)
    next
      case True
      have "unat (z1 ! k + ucast tmp) = unat (z1 ! k) + unat tmp"
        using sum tl by (subst unat_add_u32) (simp_all add: unat_ucast_64_32)
      then have "bi_val (z1[k := z1 ! k + ucast tmp]) + P * unat (z1 ! k) =
          bi_val z1 + P * (unat (z1 ! k) + unat tmp)"
        using bi_val_update [OF kz, of "z1 ! k + ucast tmp"] by (simp add: P_def)
      then have "bi_val (z1[k := z1 ! k + ucast tmp]) = bi_val z1 + P * unat tmp"
        by (simp add: algebra_simps)
      then show ?thesis using True V1 by (simp add: z2_def)
    qed
    have len2: "length z2 = length x + length y"
      using len1 "1.prems"(2) by (simp add: z2_def)
    have "length (bi_mul_outer x y (i + 1) z2) = length x + length y \<and>
       bi_val (bi_mul_outer x y (i + 1) z2) = bi_val x * bi_val y"
      using True len2 v2 inner unfolding z2_def k_def V_def
      by (intro "1.IH" [OF True inner [symmetric] refl refl]) auto
    then show ?thesis unfolding rec .
  qed
qed

lemma bi_val_mul: "bi_val (bi_mul x y) = bi_val x * bi_val y"
proof (cases "length x + length y = 0")
  case True
  then show ?thesis by (simp add: bi_mul_def)
next
  case False
  then show ?thesis
    using bi_mul_outer_inv [of 0 x "replicate (length x + length y) 0" y]
    by (simp add: bi_mul_def bi_val_normalize bi_val_replicate0)
qed

lemma bi_mul_normalized: "bi_is_normalized (bi_mul x y)"
proof (cases "length x + length y = 0")
  case True
  then show ?thesis by (simp add: bi_mul_def bi_is_normalized_def)
next
  case False
  then show ?thesis by (auto simp: bi_mul_def Let_def bi_is_normalized_normalize)
qed

lemma bi_val_mul_small: "bi_val (bi_mul_small x y) = bi_val x * unat y"
  by (simp add: bi_mul_small_def bi_val_mul)

lemma bi_mul_small_normalized: "bi_is_normalized (bi_mul_small x y)"
  by (simp add: bi_mul_small_def bi_mul_normalized)

lemma bi_copy_eq [simp]: "bi_copy x = x"
  by (simp add: bi_copy_def)

lemma bi_val_set_small: "bi_val (bi_set_small v) = unat v"
  by (simp add: bi_set_small_def)

lemma bi_set_small_normalized: "bi_is_normalized (bi_set_small v)"
  by (simp add: bi_set_small_def bi_is_normalized_def)



lemma even_unat_u32: "even (w::u32) = even (unat (w::u32))"
  by (metis even_of_nat mult.right_neutral unsigned_1 word_arith_nat_mult)
lemma and1_u32: "(w AND 1 = 0) = even (unat (w::u32))"
proof -
  have "(w AND 1 = 0) = (w mod 2 = 0)" by (simp only: and_one_eq)
  also have "\<dots> = even w" by (simp only: even_iff_mod_2_eq_zero)
  finally show ?thesis by (simp only: even_unat_u32)
qed
lemma replicate_Suc_update_last: "(replicate (Suc n) a)[n := b] = replicate n a @ [b]"
  by (induction n) simp_all

lemma bi_twoexp_nonneg:
  assumes "0 \<le> y"
  shows "bi_twoexp y = replicate (nat (y div 32)) 0 @ [push_bit (nat (y mod 32)) 1]"
proof -
  have d: "y sdiv 32 = y div 32" using assms by (simp add: signed_divide_int_def sgn_if)
  have m: "y smod 32 = y mod 32" using assms by (simp add: signed_modulo_int_def sgn_if)
  have n: "nat (y div 32 + 1) = Suc (nat (y div 32))" using assms by (simp add: nat_add_distrib)
  show ?thesis
    unfolding bi_twoexp_def Let_def d m n
    using assms by (simp add: replicate_Suc_update_last nat_diff_distrib del: replicate_Suc)
qed

lemma bi_val_twoexp: "0 \<le> y \<Longrightarrow> bi_val (bi_twoexp y) = 2 ^ nat y"
proof -
  assume y: "0 \<le> y"
  have r: "nat (y mod 32) < 32" using y by simp
  then have "(2::nat) ^ nat (y mod 32) < 2 ^ 32" by (simp only: power_strict_increasing_iff one_less_numeral_iff semiring_norm)
  then have "take_bit 32 ((2::nat) ^ nat (y mod 32)) = 2 ^ nat (y mod 32)"
    by (simp only: take_bit_nat_eq_self)
  moreover have "unat (push_bit (nat (y mod 32)) 1 :: u32) = take_bit LENGTH(32) (push_bit (nat (y mod 32)) (unat (1 :: u32)))"
    by (rule unsigned_push_bit_eq)
  ultimately have u: "unat (push_bit (nat (y mod 32)) 1 :: u32) = 2 ^ nat (y mod 32)"
    by (simp add: push_bit_eq_mult)
  have "nat y = nat (32 * (y div 32) + y mod 32)" by simp
  also have "\<dots> = nat (32 * (y div 32)) + nat (y mod 32)"
    using y by (intro nat_add_distrib) (simp_all add: pos_imp_zdiv_nonneg_iff)
  also have "nat (32 * (y div 32)) = 32 * nat (y div 32)"
    by (simp add: nat_mult_distrib)
  finally have "nat y = 32 * nat (y div 32) + nat (y mod 32)" .
  then have "(2::nat) ^ nat y = 2 ^ (32 * nat (y div 32)) * 2 ^ nat (y mod 32)"
    by (simp only: power_add)
  then show ?thesis using u by (simp add: bi_twoexp_nonneg [OF y] bi_val_append bi_val_replicate0)
qed

lemma bi_twoexp_normalized: "0 \<le> y \<Longrightarrow> bi_is_normalized (bi_twoexp y)"
proof -
  assume y: "0 \<le> y"
  have "bi_twoexp y \<noteq> []" by (simp add: bi_twoexp_nonneg [OF y])
  moreover have "length (bi_twoexp y) - 1 = nat (y div 32)" by (simp add: bi_twoexp_nonneg [OF y])
  moreover have "32 * nat (y div 32) \<le> nat y" using y by linarith
  then have "(2::nat) ^ (32 * nat (y div 32)) \<le> 2 ^ nat y" by (rule power_increasing) simp
  ultimately show ?thesis using bi_val_twoexp [OF y] by (intro bi_is_normalized_by_val) simp_all
qed

lemma bi_is_2to52_val: "bi_is_2to52 x \<Longrightarrow> bi_val x = 2 ^ 52"
proof -
  assume "bi_is_2to52 x"
  then have "x = [0, push_bit 20 1]"
    by (cases x; cases "tl x") (auto simp: bi_is_2to52_def)
  then show ?thesis by simp
qed

lemma bi_is_2to52_iff: "length x = 2 \<Longrightarrow> bi_is_2to52 x \<longleftrightarrow> bi_val x = 2 ^ 52"
proof
  assume "bi_is_2to52 x" then show "bi_val x = 2 ^ 52" by (rule bi_is_2to52_val)
next
  assume l: "length x = 2" and v: "bi_val x = 2 ^ 52"
  then obtain a b where x: "x = [a, b]"
    by (cases x; cases "tl x") auto
  have "unat a + 2 ^ 32 * unat b = 2 ^ 20 * 2 ^ 32" using v by (simp add: x)
  moreover have "unat a < 2 ^ 32" by (rule unat_u32_lt)
  ultimately have "unat a = (2 ^ 20 * 2 ^ 32) mod 2 ^ 32"
    by (metis mod_less mod_mult_self2)
  then have a0: "unat a = 0" by simp
  with \<open>unat a + 2 ^ 32 * unat b = 2 ^ 20 * 2 ^ 32\<close> have "unat b = 2 ^ 20" by simp
  then have "word_of_nat (unat b) = (word_of_nat (2 ^ 20) :: u32)" by (simp only:)
  then have "b = 2 ^ 20" by simp
  moreover have "a = 0" using a0 by (simp add: unat_eq_0)
  ultimately show "bi_is_2to52 x" by (simp add: bi_is_2to52_def x)
qed

section \<open>Scale\<close>

lemma unat_radix: "0 \<le> B \<Longrightarrow> B < 2 ^ 32 \<Longrightarrow> unat (word_of_int B :: u32) = nat B"
  by (simp add: unat_eq_nat_uint uint_word_of_int take_bit_int_eq_self)

lemma bi_compare_ge0: "bi_is_normalized x \<Longrightarrow> bi_is_normalized y \<Longrightarrow> (0 \<le> bi_compare x y) = (bi_val y \<le> bi_val x)"
  by (simp add: bi_compare_eq)

lemma bi_compare_ge1: "bi_is_normalized x \<Longrightarrow> bi_is_normalized y \<Longrightarrow> (1 \<le> bi_compare x y) = (bi_val y < bi_val x)"
  by (simp add: bi_compare_eq)

lemma bi_compare_le0: "bi_is_normalized x \<Longrightarrow> bi_is_normalized y \<Longrightarrow> (bi_compare x y \<le> 0) = (bi_val x \<le> bi_val y)"
  by (simp add: bi_compare_eq)

lemma bi_compare_lem1: "bi_is_normalized x \<Longrightarrow> bi_is_normalized y \<Longrightarrow> (bi_compare x y \<le> - 1) = (bi_val x < bi_val y)"
  by (simp add: bi_compare_eq)

lemma bi_compare_lt0: "bi_is_normalized x \<Longrightarrow> bi_is_normalized y \<Longrightarrow> (bi_compare x y < 0) = (bi_val x < bi_val y)"
  by (simp add: bi_compare_eq)

lemma radix_unat: "radix_ok B \<Longrightarrow> unat (word_of_int B :: u32) = nat B"
  by (simp add: radix_ok_def unat_radix)

lemma radix_nat_ge2: "radix_ok B \<Longrightarrow> 2 \<le> nat B"
  unfolding radix_ok_def by linarith

lemma scale_inc_cond:
  "bi_is_normalized t \<Longrightarrow> bi_is_normalized s \<Longrightarrow>
   ((if h \<noteq> (0::int) then 0 else 1) \<le> bi_compare t s) = reaches_flag h (bi_val t) (bi_val s)"
  by (simp add: bi_compare_ge0 bi_compare_ge1 reaches_flag_def)

lemma not_reaches_flag: "(\<not> reaches_flag h a b) = below_flag h a b"
  by (auto simp: reaches_flag_def below_flag_def)

lemma reaches_flag_mult: "0 < c \<Longrightarrow> reaches_flag h a b \<Longrightarrow> reaches_flag h (a * c) (b * c)"
  by (auto simp: reaches_flag_def)

lemma reaches_flag_le: "reaches_flag h a b \<Longrightarrow> b \<le> a"
  by (auto simp: reaches_flag_def split: if_splits)

lemma below_flag_le: "below_flag h a b \<Longrightarrow> a \<le> b"
  by (auto simp: below_flag_def split: if_splits)

lemma scale_inc_terminates:
  assumes "bi_is_normalized (nc_r nc)" "bi_is_normalized (nc_mp nc)" "bi_is_normalized (nc_s nc)"
    and "1 \<le> bi_val (nc_s nc)" "radix_ok (nc_B nc)"
  shows "\<exists>j s' t. dragon4_scale_inc nc k = Some (nc\<lparr>nc_s := s', nc_t1 := t\<rparr>, k + int j) \<and>
           bi_is_normalized s' \<and> bi_val s' = bi_val (nc_s nc) * nat (nc_B nc) ^ j \<and>
           below_flag (nc_high_ok nc) (bi_val (nc_r nc) + bi_val (nc_mp nc)) (bi_val s') \<and>
           (0 < j \<longrightarrow>
             reaches_flag (nc_high_ok nc) ((bi_val (nc_r nc) + bi_val (nc_mp nc)) * nat (nc_B nc)) (bi_val s'))"
  using assms
proof (induction "bi_val (nc_r nc) + bi_val (nc_mp nc) + 1 - bi_val (nc_s nc)" arbitrary: nc k rule: less_induct)
  case less
  define R where "R = bi_val (nc_r nc)"
  define MP where "MP = bi_val (nc_mp nc)"
  define S where "S = bi_val (nc_s nc)"
  define b where "b = nat (nc_B nc)"
  define t where "t = bi_add (nc_r nc) (nc_mp nc)"
  have b2: "2 \<le> b" unfolding b_def using less.prems(5) by (rule radix_nat_ge2)
  have tn: "bi_is_normalized t" unfolding t_def using less.prems(1,2) by (rule bi_add_normalized)
  have tv: "bi_val t = R + MP" by (simp add: t_def bi_val_add R_def MP_def)
  let ?cond = "(if nc_high_ok nc \<noteq> 0 then 0 else 1) \<le> bi_compare t (nc_s nc)"
  have cond: "?cond \<longleftrightarrow> reaches_flag (nc_high_ok nc) (R + MP) S"
    using scale_inc_cond [OF tn less.prems(3)] by (simp add: tv S_def)
  show ?case
  proof (cases ?cond)
    case False
    then have "dragon4_scale_inc nc k = Some (nc\<lparr>nc_s := nc_s nc, nc_t1 := t\<rparr>, k + int 0)"
      by (subst dragon4_scale_inc.simps) (simp add: t_def Let_def)
    moreover have "below_flag (nc_high_ok nc) (R + MP) S"
      using False cond by (simp add: not_reaches_flag)
    ultimately show ?thesis using less.prems(3) unfolding R_def MP_def S_def
      by (intro exI [of _ 0] exI [of _ "nc_s nc"] exI [of _ t]) simp
  next
    case True
    define s1 where "s1 = bi_mul_small (nc_s nc) (word_of_int (nc_B nc))"
    define nc2 where "nc2 = nc\<lparr>nc_s := s1, nc_t1 := s1\<rparr>"
    have s1n: "bi_is_normalized s1" by (simp add: s1_def bi_mul_small_normalized)
    have s1v: "bi_val s1 = S * b"
      by (simp add: s1_def bi_val_mul_small radix_unat [OF less.prems(5)] S_def b_def)
    have unf: "dragon4_scale_inc nc k = dragon4_scale_inc nc2 (k + 1)"
      using True
      by (subst dragon4_scale_inc.simps) (simp add: t_def Let_def bi_mul_small_copy_def s1_def nc2_def)
    have rf: "reaches_flag (nc_high_ok nc) (R + MP) S" using True cond by simp
    then have SR: "S \<le> R + MP" by (rule reaches_flag_le)
    have S1: "1 \<le> S" using less.prems(4) by (simp add: S_def)
    have "S * 2 \<le> S * b" using b2 by (intro mult_le_mono2)
    then have dec: "R + MP + 1 - S * b < R + MP + 1 - S" using SR S1 by linarith
    have "\<exists>j s' t'. dragon4_scale_inc nc2 (k + 1) = Some (nc\<lparr>nc_s := s', nc_t1 := t'\<rparr>, k + 1 + int j) \<and>
           bi_is_normalized s' \<and> bi_val s' = S * b * b ^ j \<and>
           below_flag (nc_high_ok nc) (R + MP) (bi_val s') \<and>
           (0 < j \<longrightarrow> reaches_flag (nc_high_ok nc) ((R + MP) * b) (bi_val s'))"
      using less.hyps [of nc2 "k + 1"] less.prems dec s1n s1v S1 b2
      by (simp add: nc2_def R_def MP_def S_def b_def)
    then obtain j s' t' where
      res: "dragon4_scale_inc nc2 (k + 1) = Some (nc\<lparr>nc_s := s', nc_t1 := t'\<rparr>, k + 1 + int j)"
      and sn: "bi_is_normalized s'" and sv: "bi_val s' = S * b * b ^ j"
      and up: "below_flag (nc_high_ok nc) (R + MP) (bi_val s')"
      and lo: "0 < j \<longrightarrow> reaches_flag (nc_high_ok nc) ((R + MP) * b) (bi_val s')"
      by blast
    have lo': "reaches_flag (nc_high_ok nc) ((R + MP) * b) (bi_val s')"
    proof (cases "0 < j")
      case True
      with lo show ?thesis by simp
    next
      case False
      then have "bi_val s' = S * b" using sv by simp
      moreover have "reaches_flag (nc_high_ok nc) ((R + MP) * b) (S * b)"
        using b2 rf by (intro reaches_flag_mult) simp_all
      ultimately show ?thesis by simp
    qed
    have "dragon4_scale_inc nc k = Some (nc\<lparr>nc_s := s', nc_t1 := t'\<rparr>, k + int (Suc j))"
      unfolding unf res by simp
    moreover have "bi_val s' = S * b ^ Suc j" using sv by (simp add: algebra_simps)
    ultimately show ?thesis using sn up lo' unfolding R_def MP_def S_def b_def
      by (intro exI [of _ "Suc j"] exI [of _ s'] exI [of _ t']) simp
  qed
qed

lemma scale_dec_cond:
  "bi_is_normalized t \<Longrightarrow> bi_is_normalized s \<Longrightarrow>
   (bi_compare t s \<le> (if h \<noteq> (0::int) then - 1 else 0)) = below_flag h (bi_val t) (bi_val s)"
  by (simp add: bi_compare_le0 bi_compare_lem1 below_flag_def)

lemma not_below_flag: "(\<not> below_flag h a b) = reaches_flag h a b"
  by (auto simp: reaches_flag_def below_flag_def)

lemma scale_dec_terminates:
  assumes "bi_is_normalized (nc_r nc)" "bi_is_normalized (nc_mp nc)" "bi_is_normalized (nc_mm nc)"
    and "bi_is_normalized (nc_s nc)"
    and "1 \<le> bi_val (nc_r nc) + bi_val (nc_mp nc)" "radix_ok (nc_B nc)"
    and "below_flag (nc_high_ok nc) (bi_val (nc_r nc) + bi_val (nc_mp nc)) (bi_val (nc_s nc))"
  shows "\<exists>j r' mp' mm' ta tb.
           dragon4_scale_dec nc k =
             Some (nc\<lparr>nc_r := r', nc_mp := mp', nc_mm := mm', nc_t1 := ta, nc_t2 := tb\<rparr>, k - int j) \<and>
           bi_is_normalized r' \<and> bi_is_normalized mp' \<and> bi_is_normalized mm' \<and>
           bi_val r' = bi_val (nc_r nc) * nat (nc_B nc) ^ j \<and>
           bi_val mp' = bi_val (nc_mp nc) * nat (nc_B nc) ^ j \<and>
           bi_val mm' = bi_val (nc_mm nc) * nat (nc_B nc) ^ j \<and>
           below_flag (nc_high_ok nc) (bi_val r' + bi_val mp') (bi_val (nc_s nc)) \<and>
           reaches_flag (nc_high_ok nc) ((bi_val r' + bi_val mp') * nat (nc_B nc)) (bi_val (nc_s nc))"
  using assms
proof (induction "bi_val (nc_s nc) + 1 - (bi_val (nc_r nc) + bi_val (nc_mp nc))" arbitrary: nc k rule: less_induct)
  case less
  define R where "R = bi_val (nc_r nc)"
  define MP where "MP = bi_val (nc_mp nc)"
  define MM where "MM = bi_val (nc_mm nc)"
  define S where "S = bi_val (nc_s nc)"
  define b where "b = nat (nc_B nc)"
  define w :: u32 where "w = word_of_int (nc_B nc)"
  define t where "t = bi_add (nc_r nc) (nc_mp nc)"
  define t2 where "t2 = bi_mul_small t w"
  have b2: "2 \<le> b" unfolding b_def using less.prems(6) by (rule radix_nat_ge2)
  have wv: "unat w = b" unfolding w_def b_def using less.prems(6) by (rule radix_unat)
  have t2n: "bi_is_normalized t2" by (simp add: t2_def bi_mul_small_normalized)
  have t2v: "bi_val t2 = (R + MP) * b" by (simp add: t2_def t_def bi_val_mul_small bi_val_add R_def MP_def wv)
  let ?cond = "bi_compare t2 (nc_s nc) \<le> (if nc_high_ok nc \<noteq> 0 then - 1 else 0)"
  have cond: "?cond \<longleftrightarrow> below_flag (nc_high_ok nc) ((R + MP) * b) S"
    using scale_dec_cond [OF t2n less.prems(4)] by (simp add: t2v S_def)
  show ?case
  proof (cases ?cond)
    case False
    then have "dragon4_scale_dec nc k =
        Some (nc\<lparr>nc_r := nc_r nc, nc_mp := nc_mp nc, nc_mm := nc_mm nc, nc_t1 := t, nc_t2 := t2\<rparr>, k - int 0)"
      by (subst dragon4_scale_dec.simps) (simp add: t_def t2_def w_def Let_def)
    moreover have "reaches_flag (nc_high_ok nc) ((R + MP) * b) S"
      using False cond by (simp add: not_below_flag)
    ultimately show ?thesis using less.prems(1,2,3,7) unfolding R_def MP_def S_def b_def
      by (intro exI [of _ 0] exI [of _ "nc_r nc"] exI [of _ "nc_mp nc"] exI [of _ "nc_mm nc"]
          exI [of _ t] exI [of _ t2]) simp
  next
    case True
    define r1 where "r1 = bi_mul_small (nc_r nc) w"
    define mp1 where "mp1 = bi_mul_small (nc_mp nc) w"
    define mm1 where "mm1 = bi_mul_small (nc_mm nc) w"
    define nc3 where "nc3 = nc\<lparr>nc_t2 := t2, nc_r := r1, nc_mp := mp1, nc_mm := mm1, nc_t1 := mm1\<rparr>"
    have n1: "bi_is_normalized r1" "bi_is_normalized mp1" "bi_is_normalized mm1"
      by (simp_all add: r1_def mp1_def mm1_def bi_mul_small_normalized)
    have v1: "bi_val r1 = R * b" "bi_val mp1 = MP * b" "bi_val mm1 = MM * b"
      by (simp_all add: r1_def mp1_def mm1_def bi_val_mul_small wv R_def MP_def MM_def)
    have unf: "dragon4_scale_dec nc k = dragon4_scale_dec nc3 (k - 1)"
      using True
      by (subst dragon4_scale_dec.simps)
         (simp add: t_def t2_def w_def Let_def bi_mul_small_copy_def r1_def mp1_def mm1_def nc3_def)
    have bf: "below_flag (nc_high_ok nc) ((R + MP) * b) S" using True cond by simp
    then have le: "(R + MP) * b \<le> S" by (rule below_flag_le)
    have RM1: "1 \<le> R + MP" using less.prems(5) by (simp add: R_def MP_def)
    have dec: "S + 1 - (R + MP) * b < S + 1 - (R + MP)"
    proof -
      define Q where "Q = R + MP"
      define P where "P = Q * b"
      have "Q * 2 \<le> P" unfolding P_def using b2 by (intro mult_le_mono2)
      moreover have "P \<le> S" "1 \<le> Q" using le RM1 by (simp_all add: P_def Q_def)
      ultimately have "S + 1 - P < S + 1 - Q" by linarith
      then show ?thesis by (simp add: P_def Q_def)
    qed
    have sum: "R * b + MP * b = (R + MP) * b" by (simp add: algebra_simps)
    have "\<exists>j r' mp' mm' ta tb.
           dragon4_scale_dec nc3 (k - 1) =
             Some (nc\<lparr>nc_r := r', nc_mp := mp', nc_mm := mm', nc_t1 := ta, nc_t2 := tb\<rparr>, k - 1 - int j) \<and>
           bi_is_normalized r' \<and> bi_is_normalized mp' \<and> bi_is_normalized mm' \<and>
           bi_val r' = R * b * b ^ j \<and> bi_val mp' = MP * b * b ^ j \<and> bi_val mm' = MM * b * b ^ j \<and>
           below_flag (nc_high_ok nc) (bi_val r' + bi_val mp') S \<and>
           reaches_flag (nc_high_ok nc) ((bi_val r' + bi_val mp') * b) S"
      using less.hyps [of nc3 "k - 1"] less.prems(4,6) n1 v1 dec bf RM1 b2
      by (simp add: nc3_def R_def MP_def MM_def S_def b_def sum [unfolded R_def MP_def b_def])
    then obtain j r' mp' mm' ta tb where
      res: "dragon4_scale_dec nc3 (k - 1) =
             Some (nc\<lparr>nc_r := r', nc_mp := mp', nc_mm := mm', nc_t1 := ta, nc_t2 := tb\<rparr>, k - 1 - int j)"
      and n: "bi_is_normalized r'" "bi_is_normalized mp'" "bi_is_normalized mm'"
      and v: "bi_val r' = R * b * b ^ j" "bi_val mp' = MP * b * b ^ j" "bi_val mm' = MM * b * b ^ j"
      and up: "below_flag (nc_high_ok nc) (bi_val r' + bi_val mp') S"
      and lo: "reaches_flag (nc_high_ok nc) ((bi_val r' + bi_val mp') * b) S"
      by blast
    have "dragon4_scale_dec nc k =
        Some (nc\<lparr>nc_r := r', nc_mp := mp', nc_mm := mm', nc_t1 := ta, nc_t2 := tb\<rparr>, k - int (Suc j))"
      unfolding unf res by simp
    moreover have "bi_val r' = R * b ^ Suc j" "bi_val mp' = MP * b ^ Suc j" "bi_val mm' = MM * b ^ Suc j"
      using v by (simp_all add: algebra_simps)
    ultimately show ?thesis using n up lo unfolding R_def MP_def MM_def S_def b_def
      by (intro exI [of _ "Suc j"] exI [of _ r'] exI [of _ mp'] exI [of _ mm'] exI [of _ ta] exI [of _ tb])
         simp
  qed
qed


lemma dragon4_scale_spec:
  assumes "bi_is_normalized (nc_r nc)" "bi_is_normalized (nc_mp nc)" "bi_is_normalized (nc_mm nc)"
    and "bi_is_normalized (nc_s nc)"
    and "1 \<le> bi_val (nc_s nc)" "1 \<le> bi_val (nc_r nc) + bi_val (nc_mp nc)" "radix_ok (nc_B nc)"
  shows "\<exists>j r' s' mp' mm' ta tb k.
           dragon4_scale nc =
             Some (nc\<lparr>nc_r := r', nc_s := s', nc_mp := mp', nc_mm := mm', nc_t1 := ta, nc_t2 := tb,
                       nc_k := k\<rparr>) \<and>
           bi_is_normalized r' \<and> bi_is_normalized s' \<and> bi_is_normalized mp' \<and> bi_is_normalized mm' \<and>
           ((k = int j \<and> bi_val s' = bi_val (nc_s nc) * nat (nc_B nc) ^ j \<and> bi_val r' = bi_val (nc_r nc) \<and>
               bi_val mp' = bi_val (nc_mp nc) \<and> bi_val mm' = bi_val (nc_mm nc)) \<or>
            (k = - int j \<and> bi_val s' = bi_val (nc_s nc) \<and> bi_val r' = bi_val (nc_r nc) * nat (nc_B nc) ^ j \<and>
               bi_val mp' = bi_val (nc_mp nc) * nat (nc_B nc) ^ j \<and>
               bi_val mm' = bi_val (nc_mm nc) * nat (nc_B nc) ^ j)) \<and>
           below_flag (nc_high_ok nc) (bi_val r' + bi_val mp') (bi_val s') \<and>
           reaches_flag (nc_high_ok nc) ((bi_val r' + bi_val mp') * nat (nc_B nc)) (bi_val s')"
proof -
  from scale_inc_terminates [OF assms(1,2,4,5,7), of 0]
  obtain j s1 t where
    inc0: "dragon4_scale_inc nc 0 = Some (nc\<lparr>nc_s := s1, nc_t1 := t\<rparr>, 0 + int j)"
    and s1n: "bi_is_normalized s1" and s1v: "bi_val s1 = bi_val (nc_s nc) * nat (nc_B nc) ^ j"
    and up: "below_flag (nc_high_ok nc) (bi_val (nc_r nc) + bi_val (nc_mp nc)) (bi_val s1)"
    and lo: "0 < j \<longrightarrow>
      reaches_flag (nc_high_ok nc) ((bi_val (nc_r nc) + bi_val (nc_mp nc)) * nat (nc_B nc)) (bi_val s1)"
    by blast
  have inc: "dragon4_scale_inc nc 0 = Some (nc\<lparr>nc_s := s1, nc_t1 := t\<rparr>, int j)"
    using inc0 by simp
  show ?thesis
  proof (cases "0 < j")
    case True
    have "dragon4_scale nc = Some (nc\<lparr>nc_s := s1, nc_t1 := t, nc_k := int j\<rparr>)"
      using True by (simp add: dragon4_scale_def inc)
    moreover have "nc\<lparr>nc_s := s1, nc_t1 := t, nc_k := int j\<rparr> =
        nc\<lparr>nc_r := nc_r nc, nc_s := s1, nc_mp := nc_mp nc, nc_mm := nc_mm nc, nc_t1 := t,
           nc_t2 := nc_t2 nc, nc_k := int j\<rparr>"
      by (cases nc) simp
    ultimately have 1: "dragon4_scale nc =
        Some (nc\<lparr>nc_r := nc_r nc, nc_s := s1, nc_mp := nc_mp nc, nc_mm := nc_mm nc, nc_t1 := t,
                  nc_t2 := nc_t2 nc, nc_k := int j\<rparr>)"
      by (rule trans [OF _ arg_cong [of _ _ Some]])
    have 2: "int j = int j \<and> bi_val s1 = bi_val (nc_s nc) * nat (nc_B nc) ^ j \<and>
        bi_val (nc_r nc) = bi_val (nc_r nc) \<and> bi_val (nc_mp nc) = bi_val (nc_mp nc) \<and>
        bi_val (nc_mm nc) = bi_val (nc_mm nc)"
      using s1v by simp
    have 3: "reaches_flag (nc_high_ok nc) ((bi_val (nc_r nc) + bi_val (nc_mp nc)) * nat (nc_B nc)) (bi_val s1)"
      using lo True by simp
    show ?thesis
      apply (rule exI [of _ j], rule exI [of _ "nc_r nc"], rule exI [of _ s1], rule exI [of _ "nc_mp nc"])
      apply (rule exI [of _ "nc_mm nc"], rule exI [of _ t], rule exI [of _ "nc_t2 nc"], rule exI [of _ "int j"])
      apply (intro conjI)
              apply (rule 1)
             apply (rule assms(1))
            apply (rule s1n)
           apply (rule assms(2))
          apply (rule assms(3))
         apply (rule disjI1, rule 2)
        apply (rule up)
       apply (rule 3)
      done
  next
    case False
    then have j0: "j = 0" by simp
    define nc1 where "nc1 = nc\<lparr>nc_s := s1, nc_t1 := t\<rparr>"
    have s1v': "bi_val s1 = bi_val (nc_s nc)" using s1v j0 by simp
    have f: "nc_r nc1 = nc_r nc" "nc_mp nc1 = nc_mp nc" "nc_mm nc1 = nc_mm nc" "nc_s nc1 = s1"
      "nc_B nc1 = nc_B nc" "nc_high_ok nc1 = nc_high_ok nc"
      by (simp_all add: nc1_def)
    have pre: "bi_is_normalized (nc_r nc1)" "bi_is_normalized (nc_mp nc1)" "bi_is_normalized (nc_mm nc1)"
      "bi_is_normalized (nc_s nc1)" "1 \<le> bi_val (nc_r nc1) + bi_val (nc_mp nc1)" "radix_ok (nc_B nc1)"
      "below_flag (nc_high_ok nc1) (bi_val (nc_r nc1) + bi_val (nc_mp nc1)) (bi_val (nc_s nc1))"
      unfolding f using assms s1n up by simp_all
    from scale_dec_terminates [OF pre, of 0, unfolded f]
    obtain i r' mp' mm' ta tb where
      dec: "dragon4_scale_dec nc1 0 =
             Some (nc1\<lparr>nc_r := r', nc_mp := mp', nc_mm := mm', nc_t1 := ta, nc_t2 := tb\<rparr>, 0 - int i)"
      and n: "bi_is_normalized r'" "bi_is_normalized mp'" "bi_is_normalized mm'"
      and v: "bi_val r' = bi_val (nc_r nc) * nat (nc_B nc) ^ i"
        "bi_val mp' = bi_val (nc_mp nc) * nat (nc_B nc) ^ i"
        "bi_val mm' = bi_val (nc_mm nc) * nat (nc_B nc) ^ i"
      and up': "below_flag (nc_high_ok nc) (bi_val r' + bi_val mp') (bi_val s1)"
      and lo': "reaches_flag (nc_high_ok nc) ((bi_val r' + bi_val mp') * nat (nc_B nc)) (bi_val s1)"
      by blast
    have inc1: "dragon4_scale_inc nc 0 = Some (nc1, 0)"
      using inc j0 by (simp add: nc1_def)
    have "dragon4_scale nc =
        Some ((nc1\<lparr>nc_r := r', nc_mp := mp', nc_mm := mm', nc_t1 := ta, nc_t2 := tb\<rparr>)\<lparr>nc_k := 0 - int i\<rparr>)"
      unfolding dragon4_scale_def inc1 by (simp add: dec)
    moreover have "(nc1\<lparr>nc_r := r', nc_mp := mp', nc_mm := mm', nc_t1 := ta, nc_t2 := tb\<rparr>)\<lparr>nc_k := 0 - int i\<rparr> =
        nc\<lparr>nc_r := r', nc_s := s1, nc_mp := mp', nc_mm := mm', nc_t1 := ta, nc_t2 := tb,
                  nc_k := - int i\<rparr>"
      unfolding nc1_def by (cases nc) simp
    ultimately have 1: "dragon4_scale nc =
        Some (nc\<lparr>nc_r := r', nc_s := s1, nc_mp := mp', nc_mm := mm', nc_t1 := ta, nc_t2 := tb,
                  nc_k := - int i\<rparr>)"
      by (rule trans [OF _ arg_cong [of _ _ Some]])
    have 2: "- int i = - int i \<and> bi_val s1 = bi_val (nc_s nc) \<and>
        bi_val r' = bi_val (nc_r nc) * nat (nc_B nc) ^ i \<and>
        bi_val mp' = bi_val (nc_mp nc) * nat (nc_B nc) ^ i \<and>
        bi_val mm' = bi_val (nc_mm nc) * nat (nc_B nc) ^ i"
      using s1v' v by simp
    show ?thesis
      apply (rule exI [of _ i], rule exI [of _ r'], rule exI [of _ s1], rule exI [of _ mp'])
      apply (rule exI [of _ mm'], rule exI [of _ ta], rule exI [of _ tb], rule exI [of _ "- int i"])
      apply (intro conjI)
              apply (rule 1)
             apply (rule n(1))
            apply (rule s1n)
           apply (rule n(2))
          apply (rule n(3))
         apply (rule disjI2, rule 2)
        apply (rule up')
       apply (rule lo')
      done
  qed
qed

section \<open>Generate and the output formatter\<close>

lemma generate_div_terminates:
  assumes "bi_is_normalized (nc_t1 nc)" "bi_is_normalized (nc_s nc)" "1 \<le> bi_val (nc_s nc)"
  shows "\<exists>t1' t2'. dragon4_generate_div nc d =
            Some (nc\<lparr>nc_t1 := t1', nc_t2 := t2'\<rparr>, d + int (bi_val (nc_t1 nc) div bi_val (nc_s nc))) \<and>
          bi_is_normalized t1' \<and> bi_val t1' = bi_val (nc_t1 nc) mod bi_val (nc_s nc)"
  using assms
proof (induction "bi_val (nc_t1 nc)" arbitrary: nc d rule: less_induct)
  case less
  define T where "T = bi_val (nc_t1 nc)"
  define S where "S = bi_val (nc_s nc)"
  have cond: "(bi_compare (nc_t1 nc) (nc_s nc) < 0) = (T < S)"
    using less.prems(1,2) by (simp add: bi_compare_lt0 T_def S_def)
  show ?case
  proof (cases "T < S")
    case True
    then have "dragon4_generate_div nc d = Some (nc\<lparr>nc_t1 := nc_t1 nc, nc_t2 := nc_t2 nc\<rparr>, d + int (T div S))"
      using cond by (subst dragon4_generate_div.simps) simp
    then show ?thesis using True less.prems(1) unfolding T_def S_def
      by (intro exI [of _ "nc_t1 nc"] exI [of _ "nc_t2 nc"]) simp
  next
    case False
    define t where "t = bi_sub (nc_t1 nc) (nc_s nc)"
    define nc2 where "nc2 = nc\<lparr>nc_t1 := t, nc_t2 := t\<rparr>"
    have S1: "1 \<le> S" using less.prems(3) by (simp add: S_def)
    have tn: "bi_is_normalized t" by (simp add: t_def bi_sub_normalized)
    have tv: "bi_val t = T - S"
      unfolding t_def T_def S_def using less.prems(2) False
      by (intro bi_val_sub) (simp_all add: T_def S_def)
    have unf: "dragon4_generate_div nc d = dragon4_generate_div nc2 (d + 1)"
      using False cond
      by (subst dragon4_generate_div.simps) (simp add: bi_sub_copy_def t_def nc2_def Let_def)
    have dec: "T - S < T" using False S1 by simp
    have "\<exists>t1' t2'. dragon4_generate_div nc2 (d + 1) =
            Some (nc\<lparr>nc_t1 := t1', nc_t2 := t2'\<rparr>, d + 1 + int ((T - S) div S)) \<and>
          bi_is_normalized t1' \<and> bi_val t1' = (T - S) mod S"
      using less.hyps [of nc2 "d + 1"] less.prems(2,3) tn tv dec
      by (simp add: nc2_def T_def S_def)
    then obtain t1' t2' where
      res: "dragon4_generate_div nc2 (d + 1) =
            Some (nc\<lparr>nc_t1 := t1', nc_t2 := t2'\<rparr>, d + 1 + int ((T - S) div S))"
      and n: "bi_is_normalized t1'" and v: "bi_val t1' = (T - S) mod S" by blast
    have dv: "T div S = Suc ((T - S) div S)" using False S1 by (intro le_div_geq) simp_all
    have md: "T mod S = (T - S) mod S" using False by (intro le_mod_geq) simp
    have "dragon4_generate_div nc d = Some (nc\<lparr>nc_t1 := t1', nc_t2 := t2'\<rparr>, d + int (T div S))"
      unfolding unf res dv by simp
    moreover have "bi_val t1' = T mod S" using v md by simp
    ultimately show ?thesis using n unfolding T_def S_def by blast
  qed
qed

lemma buf_writes_Inr: "buf_writes A nc (Inr nc)"
proof -
  have "Inr nc = (Inr (nc\<lparr>nc_out_buf := nc_out_buf nc @ []\<rparr>) :: duk_numconv_stringify_ctx numconv_result)"
    by simp
  moreover have "set ([] :: string) \<subseteq> A" by simp
  ultimately show ?thesis unfolding buf_writes_def by blast
qed

lemma buf_writes_putchar:
  assumes "c \<in> A"
  shows "buf_writes A nc (NUMCONV_PUTCHAR nc c)"
proof (cases "length (nc_out_buf nc) < 512")
  case True
  then have "NUMCONV_PUTCHAR nc c = Inr (nc\<lparr>nc_out_buf := nc_out_buf nc @ [c]\<rparr>)"
    by (simp add: NUMCONV_PUTCHAR_def)
  moreover have "set [c] \<subseteq> A" using assms by simp
  ultimately show ?thesis unfolding buf_writes_def by blast
next
  case False
  then have "NUMCONV_PUTCHAR nc c = Inl (Out_Buf_Overflow, nc\<lparr>nc_out_buf := nc_out_buf nc\<rparr>)"
    by (simp add: NUMCONV_PUTCHAR_def)
  then show ?thesis unfolding buf_writes_def by blast
qed

lemma buf_writes_bind:
  assumes "buf_writes A nc res" and "\<And>nc1. res = Inr nc1 \<Longrightarrow> buf_writes A nc1 (g nc1)"
  shows "buf_writes A nc (case res of Inl err \<Rightarrow> Inl err | Inr nc1 \<Rightarrow> g nc1)"
  using assms(1) unfolding buf_writes_def
proof (elim disjE exE conjE)
  fix cs
  assume r: "res = Inr (nc\<lparr>nc_out_buf := nc_out_buf nc @ cs\<rparr>)" and cs: "set cs \<subseteq> A"
  define nc1 where "nc1 = nc\<lparr>nc_out_buf := nc_out_buf nc @ cs\<rparr>"
  have ob: "nc_out_buf nc1 = nc_out_buf nc @ cs" by (simp add: nc1_def)
  have "buf_writes A nc1 (g nc1)" using r unfolding nc1_def by (rule assms(2))
  then consider (ok) cs' where "g nc1 = Inr (nc1\<lparr>nc_out_buf := nc_out_buf nc1 @ cs'\<rparr>)" "set cs' \<subseteq> A"
    | (ov) b where "g nc1 = Inl (Out_Buf_Overflow, nc1\<lparr>nc_out_buf := b\<rparr>)"
    unfolding buf_writes_def by blast
  then show "(\<exists>cs. (case res of Inl err \<Rightarrow> Inl err | Inr nc1 \<Rightarrow> g nc1) =
                  Inr (nc\<lparr>nc_out_buf := nc_out_buf nc @ cs\<rparr>) \<and> set cs \<subseteq> A) \<or>
        (\<exists>b. (case res of Inl err \<Rightarrow> Inl err | Inr nc1 \<Rightarrow> g nc1) =
                  Inl (Out_Buf_Overflow, nc\<lparr>nc_out_buf := b\<rparr>))"
  proof cases
    case ok
    have "(case res of Inl err \<Rightarrow> Inl err | Inr nc1 \<Rightarrow> g nc1) =
        Inr (nc\<lparr>nc_out_buf := nc_out_buf nc @ (cs @ cs')\<rparr>)"
      unfolding r nc1_def [symmetric] by (simp add: ok(1)) (simp add: nc1_def)
    moreover have "set (cs @ cs') \<subseteq> A" using cs ok(2) by simp
    ultimately show ?thesis by blast
  next
    case ov
    have "(case res of Inl err \<Rightarrow> Inl err | Inr nc1 \<Rightarrow> g nc1) =
        Inl (Out_Buf_Overflow, nc\<lparr>nc_out_buf := b\<rparr>)"
      unfolding r nc1_def [symmetric] by (simp add: ov) (simp add: nc1_def)
    then show ?thesis by blast
  qed
next
  fix b
  assume "res = Inl (Out_Buf_Overflow, nc\<lparr>nc_out_buf := b\<rparr>)"
  then have "(case res of Inl err \<Rightarrow> Inl err | Inr nc1 \<Rightarrow> g nc1) =
        Inl (Out_Buf_Overflow, nc\<lparr>nc_out_buf := b\<rparr>)" by simp
  then show "(\<exists>cs. (case res of Inl err \<Rightarrow> Inl err | Inr nc1 \<Rightarrow> g nc1) =
                  Inr (nc\<lparr>nc_out_buf := nc_out_buf nc @ cs\<rparr>) \<and> set cs \<subseteq> A) \<or>
        (\<exists>b. (case res of Inl err \<Rightarrow> Inl err | Inr nc1 \<Rightarrow> g nc1) =
                  Inl (Out_Buf_Overflow, nc\<lparr>nc_out_buf := b\<rparr>))" by blast
qed

lemma buf_writes_mono: "buf_writes A nc res \<Longrightarrow> A \<subseteq> A' \<Longrightarrow> buf_writes A' nc res"
  unfolding buf_writes_def by blast

lemma dragon4_output_zeros_writes: "buf_writes {CHR ''0''} nc (dragon4_output_zeros nc i)"
proof (induction nc i rule: dragon4_output_zeros.induct)
  case (1 nc i)
  show ?case
  proof (cases "i > nc_k nc")
    case False
    then have "dragon4_output_zeros nc i = Inr nc" by (subst dragon4_output_zeros.simps) simp
    then show ?thesis by (simp only: buf_writes_Inr)
  next
    case True
    have "buf_writes {CHR ''0''} nc
        (case NUMCONV_PUTCHAR nc (CHR ''0'') of Inl err \<Rightarrow> Inl err
         | Inr nc1 \<Rightarrow> dragon4_output_zeros nc1 (i - 1))"
    proof (rule buf_writes_bind)
      show "buf_writes {CHR ''0''} nc (NUMCONV_PUTCHAR nc (CHR ''0''))"
        by (rule buf_writes_putchar) simp
      show "buf_writes {CHR ''0''} nc1 (dragon4_output_zeros nc1 (i - 1))"
        if "NUMCONV_PUTCHAR nc (CHR ''0'') = Inr nc1" for nc1
        using True that by (rule "1.IH")
    qed
    moreover have "dragon4_output_zeros nc i =
        (case NUMCONV_PUTCHAR nc (CHR ''0'') of Inl err \<Rightarrow> Inl err
         | Inr nc1 \<Rightarrow> dragon4_output_zeros nc1 (i - 1))"
      using True by (subst dragon4_output_zeros.simps) simp
    ultimately show ?thesis by simp
  qed
qed

lemma dragon4_finish_loop_writes: "buf_writes {CHR ''0''} nc (dragon4_finish_loop nc pos)"
proof (induction nc pos rule: dragon4_finish_loop.induct)
  case (1 nc pos)
  show ?case
  proof (cases "pos \<le> 0")
    case True
    then have "dragon4_finish_loop nc pos = Inr nc" by (subst dragon4_finish_loop.simps) simp
    then show ?thesis by (simp only: buf_writes_Inr)
  next
    case False
    have "buf_writes {CHR ''0''} nc
        (case NUMCONV_PUTCHAR nc (CHR ''0'') of Inl err \<Rightarrow> Inl err
         | Inr nc1 \<Rightarrow> dragon4_finish_loop nc1 (pos - 1))"
    proof (rule buf_writes_bind)
      show "buf_writes {CHR ''0''} nc (NUMCONV_PUTCHAR nc (CHR ''0''))"
        by (rule buf_writes_putchar) simp
      show "buf_writes {CHR ''0''} nc1 (dragon4_finish_loop nc1 (pos - 1))"
        if "NUMCONV_PUTCHAR nc (CHR ''0'') = Inr nc1" for nc1
        using False that by (rule "1.IH")
    qed
    moreover have "dragon4_finish_loop nc pos =
        (case NUMCONV_PUTCHAR nc (CHR ''0'') of Inl err \<Rightarrow> Inl err
         | Inr nc1 \<Rightarrow> dragon4_finish_loop nc1 (pos - 1))"
      using False by (subst dragon4_finish_loop.simps) simp
    ultimately show ?thesis by simp
  qed
qed

lemma dragon4_finish_writes: "buf_writes {CHR ''0''} nc (dragon4_finish nc count)"
proof (cases "nc_k nc \<ge> 1")
  case True
  then show ?thesis by (simp add: dragon4_finish_def dragon4_finish_loop_writes)
next
  case False
  then show ?thesis by (simp add: dragon4_finish_def buf_writes_Inr)
qed

lemma length_digits: "length digits = 36"
  by (simp add: digits_def)

lemma nul_notin_digits: "CHR 0x00 \<notin> set digits"
  by (simp add: digits_def)

lemma digit_char_in: "0 \<le> d \<Longrightarrow> d < 36 \<Longrightarrow> digits ! nat d \<in> set digits"
  by (intro nth_mem) (simp add: length_digits)

lemma digit_char_not_nul: "0 \<le> d \<Longrightarrow> d < 36 \<Longrightarrow> digits ! nat d \<noteq> CHR 0x00"
  using digit_char_in [of d] nul_notin_digits by metis

text \<open>
  The emitter, for a digit index inside the table: it logs the index, and then either
  writes a prefix without a NUL and the character of the digit, or ends at a write past
  the end of the buffer.
\<close>

lemma dragon4_output_spec:
  assumes "0 \<le> d" "d < 36"
  shows "(\<exists>cs. dragon4_output nc d n =
            Inr (nc\<lparr>nc_out_buf := nc_out_buf nc @ cs @ [digits ! nat d], nc_out_first := 0,
                     nc_emitted := nc_emitted nc @ [d]\<rparr>) \<and>
            CHR 0x00 \<notin> set cs) \<or>
         (\<exists>b. dragon4_output nc d n =
            Inl (Out_Buf_Overflow, nc\<lparr>nc_out_buf := b, nc_emitted := nc_emitted nc @ [d]\<rparr>))"
proof -
  define nc1 where "nc1 = nc\<lparr>nc_emitted := nc_emitted nc @ [d]\<rparr>"
  define A where "A = {CHR ''0'', CHR ''.''}"
  define pre where "pre =
     (if nc_k nc1 - n \<le> 0 \<and> nc_out_first nc1 \<noteq> 0 then
        (case NUMCONV_PUTCHAR nc1 (CHR ''0'') of
           Inl err \<Rightarrow> Inl err
         | Inr nc2 \<Rightarrow>
             (case NUMCONV_PUTCHAR nc2 (CHR ''.'') of
                Inl err \<Rightarrow> Inl err
              | Inr nc3 \<Rightarrow> dragon4_output_zeros nc3 0))
      else if nc_k nc1 - n = 0 then NUMCONV_PUTCHAR nc1 (CHR ''.'')
      else Inr nc1)"
  have dd: "(0 \<le> d \<and> d < 36) = True" using assms by simp
  have out: "dragon4_output nc d n =
     (case pre of
        Inl err \<Rightarrow> Inl err
      | Inr nc3 \<Rightarrow>
          (case NUMCONV_PUTCHAR nc3 (digits ! nat d) of
             Inl err \<Rightarrow> Inl err
           | Inr nc4 \<Rightarrow> Inr (nc4\<lparr>nc_out_first := 0\<rparr>)))"
    unfolding dragon4_output_def Let_def pre_def nc1_def dd if_True by (rule refl)
  have z: "buf_writes A nc3 (dragon4_output_zeros nc3 0)" for nc3
    using dragon4_output_zeros_writes [of nc3 0] by (rule buf_writes_mono) (simp add: A_def)
  have p0: "buf_writes A nc2 (NUMCONV_PUTCHAR nc2 (CHR ''0''))" for nc2
    by (rule buf_writes_putchar) (simp add: A_def)
  have pd: "buf_writes A nc2 (NUMCONV_PUTCHAR nc2 (CHR ''.''))" for nc2
    by (rule buf_writes_putchar) (simp add: A_def)
  have "buf_writes A nc1
        (case NUMCONV_PUTCHAR nc1 (CHR ''0'') of
           Inl err \<Rightarrow> Inl err
         | Inr nc2 \<Rightarrow>
             (case NUMCONV_PUTCHAR nc2 (CHR ''.'') of
                Inl err \<Rightarrow> Inl err
              | Inr nc3 \<Rightarrow> dragon4_output_zeros nc3 0))"
    by (intro buf_writes_bind p0 pd z)
  then have "buf_writes A nc1 pre" unfolding pre_def by (simp add: pd buf_writes_Inr)
  then consider (ok) cs where "pre = Inr (nc1\<lparr>nc_out_buf := nc_out_buf nc1 @ cs\<rparr>)" "set cs \<subseteq> A"
    | (ov) b where "pre = Inl (Out_Buf_Overflow, nc1\<lparr>nc_out_buf := b\<rparr>)"
    unfolding buf_writes_def by blast
  then show ?thesis
  proof cases
    case ov
    have "dragon4_output nc d n =
        Inl (Out_Buf_Overflow, nc\<lparr>nc_out_buf := b, nc_emitted := nc_emitted nc @ [d]\<rparr>)"
      unfolding out ov by (simp add: nc1_def)
    then show ?thesis by blast
  next
    case ok
    define nc3 where "nc3 = nc1\<lparr>nc_out_buf := nc_out_buf nc1 @ cs\<rparr>"
    have nul: "CHR 0x00 \<notin> set cs" using ok(2) by (auto simp: A_def)
    show ?thesis
    proof (cases "length (nc_out_buf nc3) < 512")
      case True
      then have "NUMCONV_PUTCHAR nc3 (digits ! nat d) =
          Inr (nc3\<lparr>nc_out_buf := nc_out_buf nc3 @ [digits ! nat d]\<rparr>)"
        by (simp add: NUMCONV_PUTCHAR_def)
      then have "dragon4_output nc d n =
          Inr (nc\<lparr>nc_out_buf := nc_out_buf nc @ cs @ [digits ! nat d], nc_out_first := 0,
                   nc_emitted := nc_emitted nc @ [d]\<rparr>)"
        unfolding out ok(1) nc3_def [symmetric] by (simp add: nc3_def nc1_def)
      then show ?thesis using nul by blast
    next
      case False
      then have "NUMCONV_PUTCHAR nc3 (digits ! nat d) = Inl (Out_Buf_Overflow, nc3)"
        by (simp add: NUMCONV_PUTCHAR_def)
      then have "dragon4_output nc d n =
          Inl (Out_Buf_Overflow, nc\<lparr>nc_out_buf := nc_out_buf nc @ cs,
                 nc_emitted := nc_emitted nc @ [d]\<rparr>)"
        unfolding out ok(1) nc3_def [symmetric] by (simp add: nc3_def nc1_def)
      then show ?thesis by blast
    qed
  qed
qed

lemma generate_step_spec:
  assumes "bi_is_normalized (nc_s nc)" "1 \<le> bi_val (nc_s nc)" "radix_ok (nc_B nc)"
  shows "\<exists>r' mp' mm' ta tb.
           dragon4_generate_step nc =
             Some (nc\<lparr>nc_r := r', nc_mp := mp', nc_mm := mm', nc_t1 := ta, nc_t2 := tb,
                      nc_quotients := nc_quotients nc @
                        [int (bi_val (nc_r nc) * nat (nc_B nc) div bi_val (nc_s nc))]\<rparr>,
                   int (bi_val (nc_r nc) * nat (nc_B nc) div bi_val (nc_s nc))) \<and>
           bi_is_normalized r' \<and> bi_is_normalized mp' \<and> bi_is_normalized mm' \<and> bi_is_normalized ta \<and>
           bi_val r' = bi_val (nc_r nc) * nat (nc_B nc) mod bi_val (nc_s nc) \<and>
           bi_val mp' = bi_val (nc_mp nc) * nat (nc_B nc) \<and>
           bi_val mm' = bi_val (nc_mm nc) * nat (nc_B nc) \<and>
           bi_val ta = bi_val r' + bi_val mp'"
proof -
  define w :: u32 where "w = word_of_int (nc_B nc)"
  define b where "b = nat (nc_B nc)"
  define nc0 where "nc0 = nc\<lparr>nc_t1 := bi_mul_small (nc_r nc) w\<rparr>"
  have wv: "unat w = b" unfolding w_def b_def using assms(3) by (rule radix_unat)
  have t0: "bi_is_normalized (nc_t1 nc0)" "bi_val (nc_t1 nc0) = bi_val (nc_r nc) * b"
    by (simp_all add: nc0_def bi_mul_small_normalized bi_val_mul_small wv)
  from generate_div_terminates [of nc0 0] t0 assms(1,2)
  obtain r' t2' where
    dv: "dragon4_generate_div nc0 0 =
           Some (nc0\<lparr>nc_t1 := r', nc_t2 := t2'\<rparr>, int (bi_val (nc_r nc) * b div bi_val (nc_s nc)))"
    and rn: "bi_is_normalized r'" and rv: "bi_val r' = bi_val (nc_r nc) * b mod bi_val (nc_s nc)"
    by (auto simp: nc0_def)
  define mp' where "mp' = bi_mul_small (nc_mp nc) w"
  define mm' where "mm' = bi_mul_small (nc_mm nc) w"
  define ta where "ta = bi_add r' mp'"
  have n: "bi_is_normalized mp'" "bi_is_normalized mm'"
    by (simp_all add: mp'_def mm'_def bi_mul_small_normalized)
  have v: "bi_val mp' = bi_val (nc_mp nc) * b" "bi_val mm' = bi_val (nc_mm nc) * b"
    by (simp_all add: mp'_def mm'_def bi_val_mul_small wv)
  have tan: "bi_is_normalized ta" unfolding ta_def using rn n(1) by (rule bi_add_normalized)
  have tav: "bi_val ta = bi_val r' + bi_val mp'" by (simp add: ta_def bi_val_add)
  have "dragon4_generate_step nc =
      Some (nc0\<lparr>nc_t1 := r', nc_t2 := t2', nc_r := r',
                nc_quotients := nc_quotients nc @ [int (bi_val (nc_r nc) * b div bi_val (nc_s nc))],
                nc_mp := mp', nc_mm := mm', nc_t2 := mm', nc_t1 := ta\<rparr>,
            int (bi_val (nc_r nc) * b div bi_val (nc_s nc)))"
    unfolding dragon4_generate_step_def w_def [symmetric] nc0_def [symmetric] dv
    by (simp add: Let_def bi_mul_small_copy_def mp'_def mm'_def ta_def w_def nc0_def)
  moreover have "nc0\<lparr>nc_t1 := r', nc_t2 := t2', nc_r := r',
                nc_quotients := nc_quotients nc @ [int (bi_val (nc_r nc) * b div bi_val (nc_s nc))],
                nc_mp := mp', nc_mm := mm', nc_t2 := mm', nc_t1 := ta\<rparr>
      = nc\<lparr>nc_r := r', nc_mp := mp', nc_mm := mm', nc_t1 := ta, nc_t2 := mm',
           nc_quotients := nc_quotients nc @ [int (bi_val (nc_r nc) * b div bi_val (nc_s nc))]\<rparr>"
    unfolding nc0_def by (cases nc) simp
  ultimately have "dragon4_generate_step nc =
      Some (nc\<lparr>nc_r := r', nc_mp := mp', nc_mm := mm', nc_t1 := ta, nc_t2 := mm',
               nc_quotients := nc_quotients nc @ [int (bi_val (nc_r nc) * b div bi_val (nc_s nc))]\<rparr>,
            int (bi_val (nc_r nc) * b div bi_val (nc_s nc)))"
    by simp
  then show ?thesis using rn n tan rv v tav unfolding b_def by blast
qed

lemma generate_tc1_iff:
  "bi_is_normalized (nc_r nc) \<Longrightarrow> bi_is_normalized (nc_mm nc) \<Longrightarrow>
   (generate_tc1 nc \<noteq> 0) = (if nc_low_ok nc \<noteq> 0 then bi_val (nc_r nc) \<le> bi_val (nc_mm nc)
                             else bi_val (nc_r nc) < bi_val (nc_mm nc))"
  by (simp add: generate_tc1_def bi_compare_le0 bi_compare_lem1)

lemma generate_tc2_iff:
  "bi_is_normalized (nc_t1 nc) \<Longrightarrow> bi_is_normalized (nc_s nc) \<Longrightarrow>
   (generate_tc2 nc \<noteq> 0) = (bi_val (nc_s nc) \<le> bi_val (nc_t1 nc))"
  by (simp add: generate_tc2_def addr_of_high_ok_is_nonnull_def bi_compare_ge0)

lemma digits_logged_single:
  "0 \<le> q \<Longrightarrow> q \<le> B - 1 \<Longrightarrow> e = q \<or> e = q + 1 \<Longrightarrow> digits_logged B [q] [e]"
  by (simp add: digits_logged_def)

lemma digits_logged_Cons:
  assumes "0 \<le> d" "d \<le> B - 1" "digits_logged B qs ds"
  shows "digits_logged B (d # qs) (d # ds)"
proof -
  have ds: "ds \<noteq> []" and len: "length ds = length qs"
    and rng: "\<forall>q \<in> set qs. 0 \<le> q \<and> q \<le> B - 1"
    and bl: "butlast ds = butlast qs" and la: "last ds = last qs \<or> last ds = last qs + 1"
    using assms(3) unfolding digits_logged_def by blast+
  have qs: "qs \<noteq> []" using ds len by auto
  have 1: "d # ds \<noteq> []" by simp
  have 2: "length (d # ds) = length (d # qs)" using len by simp
  have 3: "\<forall>q \<in> set (d # qs). 0 \<le> q \<and> q \<le> B - 1" using rng assms(1,2) by simp
  have 4: "butlast (d # ds) = butlast (d # qs)" using bl ds qs by simp
  have 5: "last (d # ds) = last (d # qs) \<or> last (d # ds) = last (d # qs) + 1"
    using la ds qs by simp
  show ?thesis unfolding digits_logged_def using 1 2 3 4 5 by blast
qed

lemma generate_post_stop:
  assumes q: "0 \<le> q" "q \<le> nc_B nc - 1" and e: "e = q \<or> e = q + 1" and e36: "e < 36"
    and fr: "nc_out_buf ncx = nc_out_buf nc" "nc_emitted ncx = nc_emitted nc" "nc_k ncx = nc_k nc"
      "nc_quotients ncx = nc_quotients nc @ [q]"
  shows "generate_post nc count
           (case dragon4_output ncx e count of
              Inl err \<Rightarrow> Some (Inl err)
            | Inr nc6 \<Rightarrow> Some (Inr (nc6, count + 1)))"
proof -
  have e0: "0 \<le> e" using q(1) e by auto
  have dl: "digits_logged (nc_B nc) [q] [e]" using q e by (rule digits_logged_single)
  from dragon4_output_spec [OF e0 e36, of ncx count]
  consider (ok) cs where "dragon4_output ncx e count =
            Inr (ncx\<lparr>nc_out_buf := nc_out_buf ncx @ cs @ [digits ! nat e], nc_out_first := 0,
                     nc_emitted := nc_emitted ncx @ [e]\<rparr>)" "CHR 0x00 \<notin> set cs"
    | (ov) b where "dragon4_output ncx e count =
            Inl (Out_Buf_Overflow, ncx\<lparr>nc_out_buf := b, nc_emitted := nc_emitted ncx @ [e]\<rparr>)"
    by blast
  then show ?thesis
  proof cases
    case ok
    define nc' where "nc' = ncx\<lparr>nc_out_buf := nc_out_buf ncx @ cs @ [digits ! nat e], nc_out_first := 0,
                     nc_emitted := nc_emitted ncx @ [e]\<rparr>"
    have 1: "nc_quotients nc' = nc_quotients nc @ [q]" by (simp add: nc'_def fr)
    have 2: "nc_emitted nc' = nc_emitted nc @ [e]" by (simp add: nc'_def fr)
    have 3: "(case dragon4_output ncx e count of
              Inl err \<Rightarrow> Some (Inl err)
            | Inr nc6 \<Rightarrow> Some (Inr (nc6, count + 1))) = Some (Inr (nc', count + int (length [e])))"
      unfolding ok(1) nc'_def by simp
    have 4: "nc_out_buf nc' = nc_out_buf nc @ (cs @ [digits ! nat e])" by (simp add: nc'_def fr)
    have 5: "CHR 0x00 \<notin> set (cs @ [digits ! nat e])"
      using ok(2) digit_char_not_nul [OF e0 e36] by auto
    have 6: "\<exists>c \<in> set (cs @ [digits ! nat e]). c \<in> set digits"
      using digit_char_in [OF e0 e36] by auto
    have 7: "nc_k nc' = nc_k nc" by (simp add: nc'_def fr)
    show ?thesis unfolding generate_post_def 3
      using 1 2 dl 4 5 6 7 by blast
  next
    case ov
    define nc' where "nc' = ncx\<lparr>nc_out_buf := b, nc_emitted := nc_emitted ncx @ [e]\<rparr>"
    have 1: "nc_quotients nc' = nc_quotients nc @ [q]" by (simp add: nc'_def fr)
    have 2: "nc_emitted nc' = nc_emitted nc @ [e]" by (simp add: nc'_def fr)
    have 3: "(case dragon4_output ncx e count of
              Inl err \<Rightarrow> Some (Inl err)
            | Inr nc6 \<Rightarrow> Some (Inr (nc6, count + 1))) = Some (Inl (Out_Buf_Overflow, nc'))"
      unfolding ov nc'_def by simp
    show ?thesis unfolding generate_post_def 3
      using 1 2 dl by blast
  qed
qed

lemma generate_post_continue:
  assumes d: "0 \<le> d" "d \<le> nc_B nc - 1" "d < 36"
    and fr: "nc_out_buf nc4 = nc_out_buf nc" "nc_emitted nc4 = nc_emitted nc" "nc_k nc4 = nc_k nc"
      "nc_B nc4 = nc_B nc" "nc_quotients nc4 = nc_quotients nc @ [d]"
    and rec: "\<And>nc6. nc_B nc6 = nc_B nc4 \<Longrightarrow> nc_k nc6 = nc_k nc4 \<Longrightarrow> nc_r nc6 = nc_r nc4 \<Longrightarrow>
           nc_s nc6 = nc_s nc4 \<Longrightarrow> nc_mp nc6 = nc_mp nc4 \<Longrightarrow> nc_mm nc6 = nc_mm nc4 \<Longrightarrow>
           nc_low_ok nc6 = nc_low_ok nc4 \<Longrightarrow>
           generate_post nc6 (count + 1) (dragon4_generate_loop nc6 (count + 1))"
  shows "generate_post nc count
           (case dragon4_output nc4 d count of
              Inl err \<Rightarrow> Some (Inl err)
            | Inr nc6 \<Rightarrow> dragon4_generate_loop nc6 (count + 1))"
proof -
  have dl1: "digits_logged (nc_B nc) [d] [d]" using d(1,2) by (intro digits_logged_single) simp_all
  from dragon4_output_spec [OF d(1,3), of nc4 count]
  consider (ok) cs where "dragon4_output nc4 d count =
            Inr (nc4\<lparr>nc_out_buf := nc_out_buf nc4 @ cs @ [digits ! nat d], nc_out_first := 0,
                     nc_emitted := nc_emitted nc4 @ [d]\<rparr>)" "CHR 0x00 \<notin> set cs"
    | (ov) b where "dragon4_output nc4 d count =
            Inl (Out_Buf_Overflow, nc4\<lparr>nc_out_buf := b, nc_emitted := nc_emitted nc4 @ [d]\<rparr>)"
    by blast
  then show ?thesis
  proof cases
    case ov
    define nc' where "nc' = nc4\<lparr>nc_out_buf := b, nc_emitted := nc_emitted nc4 @ [d]\<rparr>"
    have 1: "nc_quotients nc' = nc_quotients nc @ [d]" by (simp add: nc'_def fr)
    have 2: "nc_emitted nc' = nc_emitted nc @ [d]" by (simp add: nc'_def fr)
    have 3: "(case dragon4_output nc4 d count of
              Inl err \<Rightarrow> Some (Inl err)
            | Inr nc6 \<Rightarrow> dragon4_generate_loop nc6 (count + 1)) = Some (Inl (Out_Buf_Overflow, nc'))"
      unfolding ov nc'_def by simp
    show ?thesis unfolding generate_post_def 3
      using 1 2 dl1 by blast
  next
    case ok
    define nc6 where "nc6 = nc4\<lparr>nc_out_buf := nc_out_buf nc4 @ cs @ [digits ! nat d], nc_out_first := 0,
                     nc_emitted := nc_emitted nc4 @ [d]\<rparr>"
    have unf: "(case dragon4_output nc4 d count of
              Inl err \<Rightarrow> Some (Inl err)
            | Inr nc6 \<Rightarrow> dragon4_generate_loop nc6 (count + 1)) = dragon4_generate_loop nc6 (count + 1)"
      unfolding ok(1) nc6_def by simp
    have B6: "nc_B nc6 = nc_B nc" using fr(4) by (simp add: nc6_def)
    have "generate_post nc6 (count + 1) (dragon4_generate_loop nc6 (count + 1))"
      by (rule rec) (simp_all add: nc6_def)
    then obtain nc' qs' ds' where
      q': "nc_quotients nc' = nc_quotients nc6 @ qs'" and em: "nc_emitted nc' = nc_emitted nc6 @ ds'"
      and dl: "digits_logged (nc_B nc) qs' ds'"
      and alt: "dragon4_generate_loop nc6 (count + 1) = Some (Inl (Out_Buf_Overflow, nc')) \<or>
         (\<exists>cs'. dragon4_generate_loop nc6 (count + 1) = Some (Inr (nc', count + 1 + int (length ds'))) \<and>
            nc_out_buf nc' = nc_out_buf nc6 @ cs' \<and> CHR 0x00 \<notin> set cs' \<and>
            (\<exists>c \<in> set cs'. c \<in> set digits) \<and> nc_k nc' = nc_k nc6)"
      unfolding generate_post_def B6 by blast
    have 1: "nc_quotients nc' = nc_quotients nc @ (d # qs')" using q' by (simp add: nc6_def fr)
    have 2: "nc_emitted nc' = nc_emitted nc @ (d # ds')" using em by (simp add: nc6_def fr)
    have dl2: "digits_logged (nc_B nc) (d # qs') (d # ds')" using d(1,2) dl by (rule digits_logged_Cons)
    from alt show ?thesis
    proof
      assume "dragon4_generate_loop nc6 (count + 1) = Some (Inl (Out_Buf_Overflow, nc'))"
      then show ?thesis unfolding generate_post_def unf using 1 2 dl2 by blast
    next
      assume "\<exists>cs'. dragon4_generate_loop nc6 (count + 1) = Some (Inr (nc', count + 1 + int (length ds'))) \<and>
            nc_out_buf nc' = nc_out_buf nc6 @ cs' \<and> CHR 0x00 \<notin> set cs' \<and>
            (\<exists>c \<in> set cs'. c \<in> set digits) \<and> nc_k nc' = nc_k nc6"
      then obtain cs' where
        res: "dragon4_generate_loop nc6 (count + 1) = Some (Inr (nc', count + 1 + int (length ds')))"
        and ob: "nc_out_buf nc' = nc_out_buf nc6 @ cs'" and nul: "CHR 0x00 \<notin> set cs'"
        and k: "nc_k nc' = nc_k nc6" by blast
      have 3: "dragon4_generate_loop nc6 (count + 1) = Some (Inr (nc', count + int (length (d # ds'))))"
        using res by simp
      have 4: "nc_out_buf nc' = nc_out_buf nc @ (cs @ [digits ! nat d] @ cs')"
        using ob by (simp add: nc6_def fr)
      have 5: "CHR 0x00 \<notin> set (cs @ [digits ! nat d] @ cs')"
        using ok(2) nul digit_char_not_nul [OF d(1,3)] by auto
      have 6: "\<exists>c \<in> set (cs @ [digits ! nat d] @ cs'). c \<in> set digits"
        using digit_char_in [OF d(1,3)] by auto
      have 7: "nc_k nc' = nc_k nc" using k by (simp add: nc6_def fr)
      show ?thesis unfolding generate_post_def unf using 1 2 dl2 3 4 5 6 7 by blast
    qed
  qed
qed

lemma quotient_digit_bound:
  fixes R S b :: nat
  assumes "R < S" "2 \<le> b"
  shows "R * b div S < b"
proof -
  have "R * b < b * S" using assms by (simp add: mult.commute)
  then show ?thesis using assms(1) by (simp add: div_less_iff_less_mult)
qed

lemma top_digit_reaches:
  fixes R S MP b :: nat
  assumes "R * b div S = b - 1" "S \<le> R * b mod S + MP * b" "2 \<le> b" "1 \<le> S"
  shows "S \<le> R + MP"
proof -
  define R' where "R' = R * b mod S"
  have "R * b = (b - 1) * S + R'"
    using div_mult_mod_eq [of "R * b" S] assms(1) by (simp add: R'_def)
  then have "R * b + MP * b = (b - 1) * S + (R' + MP * b)" by simp
  moreover have "S \<le> R' + MP * b" using assms(2) by (simp add: R'_def)
  ultimately have "(b - 1) * S + S \<le> R * b + MP * b" by linarith
  moreover have "(b - 1) * S + S = S * b" using assms(3) by (simp add: algebra_simps)
  ultimately have "S * b \<le> (R + MP) * b" by (simp add: algebra_simps)
  then show ?thesis using assms(3) by simp
qed

lemma generate_loop_spec:
  assumes "bi_is_normalized (nc_s nc)" "radix_ok (nc_B nc)"
    and "1 \<le> bi_val (nc_mm nc)" "1 \<le> bi_val (nc_mp nc)"
    and "bi_val (nc_r nc) + bi_val (nc_mp nc) \<le> bi_val (nc_s nc)"
    and "bi_val (nc_r nc) + bi_val (nc_mp nc) = bi_val (nc_s nc) \<longrightarrow> nc_B nc \<le> 35"
  shows "generate_post nc count (dragon4_generate_loop nc count)"
  using assms
proof (induction "bi_val (nc_s nc) - bi_val (nc_mm nc)" arbitrary: nc count rule: less_induct)
  case less
  define R where "R = bi_val (nc_r nc)"
  define MP where "MP = bi_val (nc_mp nc)"
  define MM where "MM = bi_val (nc_mm nc)"
  define S where "S = bi_val (nc_s nc)"
  define b where "b = nat (nc_B nc)"
  have b2: "2 \<le> b" unfolding b_def using less.prems(2) by (rule radix_nat_ge2)
  have B36: "nc_B nc \<le> 36" and Bb: "nc_B nc = int b"
    using less.prems(2) by (simp_all add: radix_ok_def b_def)
  have S1: "1 \<le> S" and RS: "R < S"
    using less.prems(4,5) by (simp_all add: S_def R_def)
  from generate_step_spec [OF less.prems(1) S1 [unfolded S_def] less.prems(2)]
  obtain r' mp' mm' ta tb where
    step: "dragon4_generate_step nc =
             Some (nc\<lparr>nc_r := r', nc_mp := mp', nc_mm := mm', nc_t1 := ta, nc_t2 := tb,
                      nc_quotients := nc_quotients nc @ [int (R * b div S)]\<rparr>, int (R * b div S))"
    and n: "bi_is_normalized r'" "bi_is_normalized mp'" "bi_is_normalized mm'" "bi_is_normalized ta"
    and rv: "bi_val r' = R * b mod S" and mpv: "bi_val mp' = MP * b" and mmv: "bi_val mm' = MM * b"
    and tav: "bi_val ta = bi_val r' + bi_val mp'"
    unfolding R_def MP_def MM_def S_def b_def by blast
  define d where "d = int (R * b div S)"
  define nc4 where "nc4 = nc\<lparr>nc_r := r', nc_mp := mp', nc_mm := mm', nc_t1 := ta, nc_t2 := tb,
                      nc_quotients := nc_quotients nc @ [d]\<rparr>"
  define nc5 where "nc5 = nc4\<lparr>nc_t1 := bi_mul_small (nc_r nc4) 2\<rparr>"
  have d0: "0 \<le> d" by (simp add: d_def)
  have "R * b div S < b" using RS b2 by (rule quotient_digit_bound)
  then have dB: "d \<le> nc_B nc - 1" by (simp add: d_def Bb)
  then have d36: "d < 36" using B36 by simp
  have tc1: "(generate_tc1 nc4 \<noteq> 0) =
      (if nc_low_ok nc \<noteq> 0 then bi_val r' \<le> bi_val mm' else bi_val r' < bi_val mm')"
    using generate_tc1_iff [of nc4] n by (simp add: nc4_def)
  have tc2: "(generate_tc2 nc4 \<noteq> 0) = (S \<le> bi_val r' + bi_val mp')"
    using generate_tc2_iff [of nc4] n less.prems(1) by (simp add: nc4_def tav S_def)
  have frame4: "nc_out_buf nc4 = nc_out_buf nc" "nc_emitted nc4 = nc_emitted nc" "nc_k nc4 = nc_k nc"
    "nc_B nc4 = nc_B nc" "nc_quotients nc4 = nc_quotients nc @ [d]"
    by (simp_all add: nc4_def)
  have frame4s: "nc_out_buf nc4 = nc_out_buf nc" "nc_emitted nc4 = nc_emitted nc" "nc_k nc4 = nc_k nc"
    "nc_quotients nc4 = nc_quotients nc @ [d]"
    by (simp_all add: nc4_def)
  have frame5: "nc_out_buf nc5 = nc_out_buf nc" "nc_emitted nc5 = nc_emitted nc" "nc_k nc5 = nc_k nc"
    "nc_quotients nc5 = nc_quotients nc @ [d]"
    by (simp_all add: nc5_def nc4_def)
  have same: "d = d \<or> d = d + 1" and succ: "d + 1 = d \<or> d + 1 = d + 1" by simp_all
  have up: "generate_tc2 nc4 \<noteq> 0 \<Longrightarrow> 0 \<le> d + 1 \<and> d + 1 \<le> nc_B nc \<and> d + 1 < 36"
  proof -
    assume "generate_tc2 nc4 \<noteq> 0"
    then have reach: "S \<le> R * b mod S + MP * b" using tc2 by (simp add: rv mpv)
    show ?thesis
    proof (cases "d = nc_B nc - 1")
      case False
      then show ?thesis using d0 dB B36 by simp
    next
      case True
      then have "R * b div S = b - 1" using b2 by (simp add: d_def Bb)
      then have "S \<le> R + MP" using reach b2 S1 by (rule top_digit_reaches)
      then have "R + MP = S" using less.prems(5) by (simp add: R_def MP_def S_def)
      then have "nc_B nc \<le> 35" using less.prems(6) by (simp add: R_def MP_def S_def)
      then show ?thesis using d0 dB by simp
    qed
  qed
  show ?case
  proof (cases "generate_tc1 nc4 \<noteq> 0")
    case t1: True
    show ?thesis
    proof (cases "generate_tc2 nc4 \<noteq> 0")
      case t2: True
      note e = up [OF t2]
      show ?thesis
      proof (cases "bi_compare (nc_t1 nc5) (nc_s nc5) < 0")
        case True
        have "dragon4_generate_loop nc count =
            (case dragon4_output nc5 d count of
               Inl err \<Rightarrow> Some (Inl err) | Inr nc6 \<Rightarrow> Some (Inr (nc6, count + 1)))"
          using t1 t2 True
          by (subst dragon4_generate_loop.simps)
             (simp add: step nc4_def [symmetric] d_def [symmetric] Let_def nc5_def [symmetric])
        then show ?thesis using generate_post_stop [OF d0 dB same d36 frame5, of count] by simp
      next
        case False
        have "dragon4_generate_loop nc count =
            (case dragon4_output nc5 (d + 1) count of
               Inl err \<Rightarrow> Some (Inl err) | Inr nc6 \<Rightarrow> Some (Inr (nc6, count + 1)))"
          using t1 t2 False
          by (subst dragon4_generate_loop.simps)
             (simp add: step nc4_def [symmetric] d_def [symmetric] Let_def nc5_def [symmetric])
        then show ?thesis using generate_post_stop [OF d0 dB succ _ frame5, of count] e by simp
      qed
    next
      case t2: False
      have "dragon4_generate_loop nc count =
          (case dragon4_output nc4 d count of
             Inl err \<Rightarrow> Some (Inl err) | Inr nc6 \<Rightarrow> Some (Inr (nc6, count + 1)))"
        using t1 t2
        by (subst dragon4_generate_loop.simps)
           (simp add: step nc4_def [symmetric] d_def [symmetric] Let_def)
      then show ?thesis using generate_post_stop [OF d0 dB same d36 frame4s, of count] by simp
    qed
  next
    case t1: False
    show ?thesis
    proof (cases "generate_tc2 nc4 \<noteq> 0")
      case t2: True
      note e = up [OF t2]
      have "dragon4_generate_loop nc count =
          (case dragon4_output nc4 (d + 1) count of
             Inl err \<Rightarrow> Some (Inl err) | Inr nc6 \<Rightarrow> Some (Inr (nc6, count + 1)))"
        using t1 t2
        by (subst dragon4_generate_loop.simps)
           (simp add: step nc4_def [symmetric] d_def [symmetric] Let_def)
      then show ?thesis using generate_post_stop [OF d0 dB succ _ frame4s, of count] e by simp
    next
      case t2: False
      have unf: "dragon4_generate_loop nc count =
          (case dragon4_output nc4 d count of
             Inl err \<Rightarrow> Some (Inl err) | Inr nc6 \<Rightarrow> dragon4_generate_loop nc6 (count + 1))"
        using t1 t2
        by (subst dragon4_generate_loop.simps)
           (simp add: step nc4_def [symmetric] d_def [symmetric] Let_def)
      have lt: "bi_val r' + bi_val mp' < S" using t2 tc2 by simp
      have ge: "bi_val mm' \<le> bi_val r'" using t1 tc1 by (auto split: if_splits)
      have MM1: "1 \<le> MM" using less.prems(3) by (simp add: MM_def)
      have MP1: "1 \<le> MP" using less.prems(4) by (simp add: MP_def)
      have "MM * 2 \<le> MM * b" using b2 by (intro mult_le_mono2)
      then have mmgt: "MM < bi_val mm'" using MM1 by (simp add: mmv)
      have mm1: "1 \<le> bi_val mm'" using mmgt by simp
      have "MP * 1 \<le> MP * b" using b2 by (intro mult_le_mono2) simp
      then have mp1: "1 \<le> bi_val mp'" using MP1 by (simp add: mpv)
      have dec: "S - bi_val mm' < S - MM" using mmgt ge lt by linarith
      have rec: "generate_post nc6 (count + 1) (dragon4_generate_loop nc6 (count + 1))"
        if "nc_B nc6 = nc_B nc4" "nc_k nc6 = nc_k nc4" "nc_r nc6 = nc_r nc4" "nc_s nc6 = nc_s nc4"
          "nc_mp nc6 = nc_mp nc4" "nc_mm nc6 = nc_mm nc4" "nc_low_ok nc6 = nc_low_ok nc4" for nc6
      proof (rule less.hyps)
        show "bi_val (nc_s nc6) - bi_val (nc_mm nc6) < bi_val (nc_s nc) - bi_val (nc_mm nc)"
          using dec that by (simp add: nc4_def S_def MM_def)
        show "bi_is_normalized (nc_s nc6)" using less.prems(1) that by (simp add: nc4_def)
        show "radix_ok (nc_B nc6)" using less.prems(2) that by (simp add: nc4_def)
        show "1 \<le> bi_val (nc_mm nc6)" using mm1 that by (simp add: nc4_def)
        show "1 \<le> bi_val (nc_mp nc6)" using mp1 that by (simp add: nc4_def)
        show "bi_val (nc_r nc6) + bi_val (nc_mp nc6) \<le> bi_val (nc_s nc6)"
          using lt that by (simp add: nc4_def S_def)
        show "bi_val (nc_r nc6) + bi_val (nc_mp nc6) = bi_val (nc_s nc6) \<longrightarrow> nc_B nc6 \<le> 35"
          using lt that by (simp add: nc4_def S_def)
      qed
      show ?thesis unfolding unf
        using d0 dB d36 frame4 rec by (rule generate_post_continue)
    qed
  qed
qed

section \<open>Double decomposition and setup\<close>

lemma unat_and_mask: "unat (w AND mask n) = unat w mod 2 ^ n"
  for w :: "'a::len word"
proof -
  have "w AND mask n = take_bit n w" by (simp only: take_bit_eq_mask)
  moreover have "unat (take_bit n w) = take_bit n (unat w)"
    by (simp add: unsigned_take_bit_eq min_def take_bit_nat_eq_self_iff)
  ultimately show ?thesis by (simp add: take_bit_eq_mod)
qed

lemma unat_ucast_64_32_mod: "unat (ucast (x :: u64) :: u32) = unat x mod 2 ^ 32"
  by (simp add: unsigned_ucast_eq take_bit_eq_mod)

lemma unat_drop_bit_div: "unat (drop_bit n w) = unat w div 2 ^ n"
  for w :: "'a::len word"
  by (metis drop_bit_eq_div unat_drop_bit_eq)

lemma mask20: "(0x000fffff :: u32) = mask 20" by (simp add: mask_eq_exp_minus_1)
lemma mask11: "(0x07ff :: u32) = mask 11" by (simp add: mask_eq_exp_minus_1)
lemma mask11': "(0x7ff :: u64) = mask 11" by (simp add: mask_eq_exp_minus_1)
lemma mask52: "(0xfffffffffffff :: u64) = mask 52" by (simp add: mask_eq_exp_minus_1)

lemma cd_limb1: "unat ((ucast (drop_bit 32 (x :: u64)) :: u32) AND 0x000fffff) = unat x div 2 ^ 32 mod 2 ^ 20"
proof -
  have "(unat x div 2 ^ 32 mod 2 ^ 32) mod 2 ^ 20 = unat x div 2 ^ 32 mod 2 ^ 20"
    by (rule mod_mod_cancel) simp
  then show ?thesis
    unfolding mask20 unat_and_mask unat_ucast_64_32_mod unat_drop_bit_div .
qed

lemma div_mod_shift:
  fixes a :: nat
  shows "(a mod 2 ^ 32) div 2 ^ 20 mod 2 ^ 11 = a div 2 ^ 20 mod 2 ^ 11"
proof -
  have "a mod 2 ^ 32 = a mod (2 ^ 20 * 2 ^ 12)" by simp
  also have "\<dots> = 2 ^ 20 * (a div 2 ^ 20 mod 2 ^ 12) + a mod 2 ^ 20" by (rule mod_mult2_eq)
  finally have "(a mod 2 ^ 32) div 2 ^ 20 = a div 2 ^ 20 mod 2 ^ 12" by simp
  moreover have "(a div 2 ^ 20 mod 2 ^ 12) mod 2 ^ 11 = a div 2 ^ 20 mod 2 ^ 11"
    by (rule mod_mod_cancel) simp
  ultimately show ?thesis by simp
qed

lemma mask_and_push_bit: "(w AND mask n) AND push_bit n 1 = 0"
  for w :: "'a::len word"
  by (rule bit_eqI) (auto simp: bit_simps)

lemma or_bit20:
  "unat (((w :: u32) AND 0x000fffff) OR 0x00100000) = unat (w AND 0x000fffff) + 2 ^ 20"
proof -
  have p: "(0x00100000 :: u32) = push_bit 20 1" by simp
  have "(w AND mask 20) AND push_bit 20 1 = 0"
    by (rule mask_and_push_bit)
  then have "(w AND mask 20) OR push_bit 20 1 = (w AND mask 20) + push_bit 20 1"
    by (rule disjunctive_add_eq_or [symmetric])
  moreover have "unat (w AND mask 20) + unat (push_bit 20 1 :: u32) < 2 ^ 32"
    using unat_and_mask [of w 20] by (simp add: mod_less_divisor [of "2 ^ 20" "unat w", THEN less_trans])
  ultimately show ?thesis unfolding mask20 p
    by (simp add: unat_add_u32)
qed

lemma cd_exp:
  "uint ((drop_bit 20 (ucast (drop_bit 32 (x :: u64)) :: u32)) AND 0x07ff) = int (unat x div 2 ^ 52 mod 2 ^ 11)"
proof -
  have "unat ((drop_bit 20 (ucast (drop_bit 32 x) :: u32)) AND mask 11) =
      (unat x div 2 ^ 32 mod 2 ^ 32) div 2 ^ 20 mod 2 ^ 11"
    unfolding unat_and_mask unat_drop_bit_div unat_ucast_64_32_mod ..
  also have "\<dots> = unat x div 2 ^ 32 div 2 ^ 20 mod 2 ^ 11" by (rule div_mod_shift)
  also have "\<dots> = unat x div 2 ^ 52 mod 2 ^ 11" by (simp add: div_mult2_eq [symmetric])
  finally show ?thesis unfolding mask11 by (simp only: uint_nat)
qed

lemma double_exp_field_eq: "double_exp_field x = int (unat x div 2 ^ 52 mod 2 ^ 11)"
  unfolding double_exp_field_def mask11' by (simp only: uint_nat unat_and_mask unat_drop_bit_div)

lemma double_frac_field_eq: "double_frac_field x = int (unat x mod 2 ^ 52)"
  unfolding double_frac_field_def mask52 by (simp only: uint_nat unat_and_mask)

lemma frac_split:
  fixes X :: nat
  shows "X mod 2 ^ 32 + 2 ^ 32 * (X div 2 ^ 32 mod 2 ^ 20) = X mod 2 ^ 52"
proof -
  have "X mod 2 ^ 52 = X mod (2 ^ 32 * 2 ^ 20)" by simp
  also have "\<dots> = 2 ^ 32 * (X div 2 ^ 32 mod 2 ^ 20) + X mod 2 ^ 32" by (rule mod_mult2_eq)
  finally show ?thesis by simp
qed

lemma convert_double_spec:
  "\<exists>f'. dragon4_convert_double nc = nc\<lparr>nc_f := f', nc_e := double_exp (nc_x nc)\<rparr> \<and>
        length f' = 2 \<and> int (bi_val f') = double_mant (nc_x nc)"
proof -
  define X where "X = unat (nc_x nc)"
  define l0 :: u32 where "l0 = ucast (nc_x nc)"
  define l1 :: u32 where "l1 = ucast (drop_bit 32 (nc_x nc)) AND 0x000fffff"
  define E where "E = uint ((drop_bit 20 (ucast (drop_bit 32 (nc_x nc)) :: u32)) AND 0x07ff)"
  have E: "E = double_exp_field (nc_x nc)" by (simp only: E_def cd_exp double_exp_field_eq)
  have fr: "int (unat l0 + 2 ^ 32 * unat l1) = double_frac_field (nc_x nc)"
    unfolding l0_def l1_def cd_limb1 unat_ucast_64_32_mod double_frac_field_eq
    by (simp only: frac_split)
  show ?thesis
  proof (cases "E = 0")
    case True
    have "dragon4_convert_double nc = nc\<lparr>nc_f := [l0, l1], nc_e := double_exp (nc_x nc)\<rparr>"
      using True
      by (simp add: dragon4_convert_double_def Let_def E_def [symmetric] l0_def l1_def double_exp_def
          E [symmetric] IEEE_DOUBLE_EXP_MIN_def)
    moreover have "int (bi_val [l0, l1]) = double_mant (nc_x nc)"
      using True fr by (simp add: double_mant_def E [symmetric])
    ultimately show ?thesis by (intro exI [of _ "[l0, l1]"]) simp
  next
    case False
    have "dragon4_convert_double nc =
        nc\<lparr>nc_f := [l0, l1 OR 0x00100000], nc_e := double_exp (nc_x nc)\<rparr>"
      using False
      by (simp add: dragon4_convert_double_def Let_def E_def [symmetric] l0_def l1_def double_exp_def
          E [symmetric] IEEE_DOUBLE_EXP_MIN_def IEEE_DOUBLE_EXP_BIAS_def)
    moreover have "unat (l1 OR 0x00100000) = unat l1 + 2 ^ 20"
      unfolding l1_def by (rule or_bit20)
    then have "int (bi_val [l0, l1 OR 0x00100000]) = double_mant (nc_x nc)"
      using False fr by (simp add: double_mant_def E [symmetric])
    ultimately show ?thesis by (intro exI [of _ "[l0, l1 OR 0x00100000]"]) simp
  qed
qed

lemma double_frac_field_nonneg: "0 \<le> double_frac_field x"
  by (simp add: double_frac_field_def)

lemma double_mant_pos:
  assumes "fpclassify x = FP_NORMAL \<or> fpclassify x = FP_SUBNORMAL"
  shows "1 \<le> double_mant x"
proof (cases "double_exp_field x = 0")
  case True
  then have "double_frac_field x \<noteq> 0" using assms by (auto simp: fpclassify_def split: if_splits)
  then show ?thesis using True double_frac_field_nonneg [of x] by (simp add: double_mant_def)
next
  case False
  then show ?thesis using double_frac_field_nonneg [of x] by (simp add: double_mant_def)
qed


lemma prepare_flags:
  "(if bi_is_even (nc_f nc) then nc\<lparr>nc_low_ok := 1, nc_high_ok := 1\<rparr>
    else nc\<lparr>nc_low_ok := 0, nc_high_ok := 0\<rparr>) =
   nc\<lparr>nc_low_ok := (if bi_is_even (nc_f nc) then 1 else 0),
      nc_high_ok := (if bi_is_even (nc_f nc) then 1 else 0)\<rparr>"
  by simp

lemma prepare_c1:
  assumes "0 \<le> nc_e nc" "bi_is_2to52 (nc_f nc)"
  shows "dragon4_prepare nc =
     nc\<lparr>nc_low_ok := (if bi_is_even (nc_f nc) then 1 else 0),
        nc_high_ok := (if bi_is_even (nc_f nc) then 1 else 0),
        nc_t1 := bi_twoexp (nc_e nc + 2),
        nc_r := bi_mul (nc_f nc) (bi_twoexp (nc_e nc + 2)),
        nc_s := bi_set_small 4,
        nc_mp := bi_twoexp (nc_e nc + 1),
        nc_mm := bi_twoexp (nc_e nc)\<rparr>"
  unfolding dragon4_prepare_def prepare_flags using assms by (simp add: Let_def)

lemma prepare_c2:
  assumes "0 \<le> nc_e nc" "\<not> bi_is_2to52 (nc_f nc)"
  shows "dragon4_prepare nc =
     nc\<lparr>nc_low_ok := (if bi_is_even (nc_f nc) then 1 else 0),
        nc_high_ok := (if bi_is_even (nc_f nc) then 1 else 0),
        nc_r := bi_mul (nc_f nc) (bi_twoexp (nc_e nc + 1)),
        nc_s := bi_set_small 2,
        nc_t1 := bi_twoexp (nc_e nc),
        nc_mp := bi_twoexp (nc_e nc),
        nc_mm := bi_twoexp (nc_e nc)\<rparr>"
  unfolding dragon4_prepare_def prepare_flags using assms by (simp add: Let_def)

lemma prepare_c3:
  assumes "\<not> 0 \<le> nc_e nc" "- 1022 < nc_e nc \<and> bi_is_2to52 (nc_f nc)"
  shows "dragon4_prepare nc =
     nc\<lparr>nc_low_ok := (if bi_is_even (nc_f nc) then 1 else 0),
        nc_high_ok := (if bi_is_even (nc_f nc) then 1 else 0),
        nc_r := bi_mul_small (nc_f nc) 4,
        nc_s := bi_twoexp (2 - nc_e nc),
        nc_mp := bi_set_small 2,
        nc_mm := bi_set_small 1\<rparr>"
  unfolding dragon4_prepare_def prepare_flags using assms
  by (simp add: Let_def IEEE_DOUBLE_EXP_MIN_def)

lemma prepare_c4:
  assumes "\<not> 0 \<le> nc_e nc" "\<not> (- 1022 < nc_e nc \<and> bi_is_2to52 (nc_f nc))"
  shows "dragon4_prepare nc =
     nc\<lparr>nc_low_ok := (if bi_is_even (nc_f nc) then 1 else 0),
        nc_high_ok := (if bi_is_even (nc_f nc) then 1 else 0),
        nc_r := bi_mul_small (nc_f nc) 2,
        nc_s := bi_twoexp (1 - nc_e nc),
        nc_mp := bi_set_small 1,
        nc_mm := bi_set_small 1\<rparr>"
proof -
  have n: "(nc_e nc > IEEE_DOUBLE_EXP_MIN \<and> bi_is_2to52 (nc_f nc)) = False"
    using assms(2) by (simp add: IEEE_DOUBLE_EXP_MIN_def)
  show ?thesis
    unfolding dragon4_prepare_def prepare_flags using assms(1) by (simp add: Let_def n)
qed

lemmas prepare_cases = prepare_c1 prepare_c2 prepare_c3 prepare_c4

lemmas bi_facts = bi_mul_normalized bi_val_mul bi_mul_small_normalized bi_val_mul_small
  bi_set_small_normalized bi_val_set_small bi_twoexp_normalized bi_val_twoexp

lemma prepare_frame:
  "nc_B (dragon4_prepare nc) = nc_B nc" "nc_out_buf (dragon4_prepare nc) = nc_out_buf nc"
  "nc_emitted (dragon4_prepare nc) = nc_emitted nc" "nc_out_first (dragon4_prepare nc) = nc_out_first nc"
  "nc_f (dragon4_prepare nc) = nc_f nc" "nc_e (dragon4_prepare nc) = nc_e nc"
  "nc_high_ok (dragon4_prepare nc) = (if bi_is_even (nc_f nc) then 1 else 0)"
  "nc_low_ok (dragon4_prepare nc) = (if bi_is_even (nc_f nc) then 1 else 0)"
proof -
  consider (c1) "0 \<le> nc_e nc" "bi_is_2to52 (nc_f nc)"
    | (c2) "0 \<le> nc_e nc" "\<not> bi_is_2to52 (nc_f nc)"
    | (c3) "\<not> 0 \<le> nc_e nc" "- 1022 < nc_e nc \<and> bi_is_2to52 (nc_f nc)"
    | (c4) "\<not> 0 \<le> nc_e nc" "\<not> (- 1022 < nc_e nc \<and> bi_is_2to52 (nc_f nc))" by blast
  then have "nc_B (dragon4_prepare nc) = nc_B nc \<and> nc_out_buf (dragon4_prepare nc) = nc_out_buf nc \<and>
    nc_emitted (dragon4_prepare nc) = nc_emitted nc \<and> nc_out_first (dragon4_prepare nc) = nc_out_first nc \<and>
    nc_f (dragon4_prepare nc) = nc_f nc \<and> nc_e (dragon4_prepare nc) = nc_e nc \<and>
    nc_high_ok (dragon4_prepare nc) = (if bi_is_even (nc_f nc) then 1 else 0) \<and>
    nc_low_ok (dragon4_prepare nc) = (if bi_is_even (nc_f nc) then 1 else 0)"
  proof cases
    case c1 show ?thesis by (simp add: prepare_c1 [OF c1])
  next
    case c2 show ?thesis by (simp add: prepare_c2 [OF c2])
  next
    case c3 show ?thesis by (simp add: prepare_c3 [OF c3])
  next
    case c4 show ?thesis by (simp add: prepare_c4 [OF c4])
  qed
  then show "nc_B (dragon4_prepare nc) = nc_B nc" "nc_out_buf (dragon4_prepare nc) = nc_out_buf nc"
  "nc_emitted (dragon4_prepare nc) = nc_emitted nc" "nc_out_first (dragon4_prepare nc) = nc_out_first nc"
  "nc_f (dragon4_prepare nc) = nc_f nc" "nc_e (dragon4_prepare nc) = nc_e nc"
  "nc_high_ok (dragon4_prepare nc) = (if bi_is_even (nc_f nc) then 1 else 0)"
  "nc_low_ok (dragon4_prepare nc) = (if bi_is_even (nc_f nc) then 1 else 0)"
    by blast+
qed

lemma prepare_normalized:
  "bi_is_normalized (nc_r (dragon4_prepare nc))" "bi_is_normalized (nc_s (dragon4_prepare nc))"
  "bi_is_normalized (nc_mp (dragon4_prepare nc))" "bi_is_normalized (nc_mm (dragon4_prepare nc))"
proof -
  consider (c1) "0 \<le> nc_e nc" "bi_is_2to52 (nc_f nc)"
    | (c2) "0 \<le> nc_e nc" "\<not> bi_is_2to52 (nc_f nc)"
    | (c3) "\<not> 0 \<le> nc_e nc" "- 1022 < nc_e nc \<and> bi_is_2to52 (nc_f nc)"
    | (c4) "\<not> 0 \<le> nc_e nc" "\<not> (- 1022 < nc_e nc \<and> bi_is_2to52 (nc_f nc))" by blast
  then have "bi_is_normalized (nc_r (dragon4_prepare nc)) \<and> bi_is_normalized (nc_s (dragon4_prepare nc)) \<and>
    bi_is_normalized (nc_mp (dragon4_prepare nc)) \<and> bi_is_normalized (nc_mm (dragon4_prepare nc))"
  proof cases
    case c1 show ?thesis using c1 by (simp add: prepare_c1 [OF c1] bi_facts)
  next
    case c2 show ?thesis using c2 by (simp add: prepare_c2 [OF c2] bi_facts)
  next
    case c3 show ?thesis using c3 by (simp add: prepare_c3 [OF c3] bi_facts)
  next
    case c4 show ?thesis using c4 by (simp add: prepare_c4 [OF c4] bi_facts)
  qed
  then show "bi_is_normalized (nc_r (dragon4_prepare nc))" "bi_is_normalized (nc_s (dragon4_prepare nc))"
  "bi_is_normalized (nc_mp (dragon4_prepare nc))" "bi_is_normalized (nc_mm (dragon4_prepare nc))"
    by blast+
qed

text \<open>The four bigints after setup, as numbers, in each of the four cases of the source.\<close>

lemma prepare_values:
  fixes nc :: duk_numconv_stringify_ctx
  defines "F \<equiv> bi_val (nc_f nc)" and "e \<equiv> nc_e nc" and "z \<equiv> bi_is_2to52 (nc_f nc)"
  defines "nc' \<equiv> dragon4_prepare nc"
  shows "0 \<le> e \<Longrightarrow> z \<Longrightarrow> bi_val (nc_r nc') = F * 2 ^ nat (e + 2) \<and> bi_val (nc_s nc') = 4 \<and>
           bi_val (nc_mp nc') = 2 ^ nat (e + 1) \<and> bi_val (nc_mm nc') = 2 ^ nat e"
    and "0 \<le> e \<Longrightarrow> \<not> z \<Longrightarrow> bi_val (nc_r nc') = F * 2 ^ nat (e + 1) \<and> bi_val (nc_s nc') = 2 \<and>
           bi_val (nc_mp nc') = 2 ^ nat e \<and> bi_val (nc_mm nc') = 2 ^ nat e"
    and "\<not> 0 \<le> e \<Longrightarrow> - 1022 < e \<and> z \<Longrightarrow> bi_val (nc_r nc') = F * 4 \<and> bi_val (nc_s nc') = 2 ^ nat (2 - e) \<and>
           bi_val (nc_mp nc') = 2 \<and> bi_val (nc_mm nc') = 1"
    and "\<not> 0 \<le> e \<Longrightarrow> \<not> (- 1022 < e \<and> z) \<Longrightarrow> bi_val (nc_r nc') = F * 2 \<and>
           bi_val (nc_s nc') = 2 ^ nat (1 - e) \<and> bi_val (nc_mp nc') = 1 \<and> bi_val (nc_mm nc') = 1"
proof -
  show "bi_val (nc_r nc') = F * 2 ^ nat (e + 2) \<and> bi_val (nc_s nc') = 4 \<and>
           bi_val (nc_mp nc') = 2 ^ nat (e + 1) \<and> bi_val (nc_mm nc') = 2 ^ nat e" if "0 \<le> e" "z"
    using that unfolding nc'_def e_def z_def F_def by (simp add: prepare_c1 bi_facts)
  show "bi_val (nc_r nc') = F * 2 ^ nat (e + 1) \<and> bi_val (nc_s nc') = 2 \<and>
           bi_val (nc_mp nc') = 2 ^ nat e \<and> bi_val (nc_mm nc') = 2 ^ nat e" if "0 \<le> e" "\<not> z"
    using that unfolding nc'_def e_def z_def F_def by (simp add: prepare_c2 bi_facts)
  show "bi_val (nc_r nc') = F * 4 \<and> bi_val (nc_s nc') = 2 ^ nat (2 - e) \<and>
           bi_val (nc_mp nc') = 2 \<and> bi_val (nc_mm nc') = 1" if "\<not> 0 \<le> e" "- 1022 < e \<and> z"
    using that unfolding nc'_def e_def z_def F_def by (simp add: prepare_c3 bi_facts)
  show "bi_val (nc_r nc') = F * 2 \<and>
           bi_val (nc_s nc') = 2 ^ nat (1 - e) \<and> bi_val (nc_mp nc') = 1 \<and> bi_val (nc_mm nc') = 1"
    if "\<not> 0 \<le> e" "\<not> (- 1022 < e \<and> z)"
    using that unfolding nc'_def e_def z_def F_def by (simp add: prepare_c4 bi_facts)
qed


lemma prepare_quotients: "nc_quotients (dragon4_prepare nc) = nc_quotients nc"
proof -
  consider (c1) "0 \<le> nc_e nc" "bi_is_2to52 (nc_f nc)"
    | (c2) "0 \<le> nc_e nc" "\<not> bi_is_2to52 (nc_f nc)"
    | (c3) "\<not> 0 \<le> nc_e nc" "- 1022 < nc_e nc \<and> bi_is_2to52 (nc_f nc)"
    | (c4) "\<not> 0 \<le> nc_e nc" "\<not> (- 1022 < nc_e nc \<and> bi_is_2to52 (nc_f nc))" by blast
  then show ?thesis
  proof cases
    case c1 show ?thesis by (simp add: prepare_c1 [OF c1])
  next
    case c2 show ?thesis by (simp add: prepare_c2 [OF c2])
  next
    case c3 show ?thesis by (simp add: prepare_c3 [OF c3])
  next
    case c4 show ?thesis by (simp add: prepare_c4 [OF c4])
  qed
qed
section \<open>The slow path as a whole\<close>

lemma bi_is_even_iff: "bi_is_even x = even (bi_val x)"
proof (cases x)
  case Nil
  then show ?thesis by (simp add: bi_is_even_def)
next
  case (Cons w ws)
  have "(w AND 1 = 0) = even (unat w)" by (rule and1_u32)
  then show ?thesis using Cons by (simp add: bi_is_even_def)
qed

lemma odd_part_le:
  fixes p q m n :: nat
  assumes "odd p" "odd q" "2 ^ m * p = 2 ^ n * q" "m \<le> n"
  shows "p = q"
proof -
  have "2 ^ n = (2::nat) ^ m * 2 ^ (n - m)" using assms(4) by (simp add: power_add [symmetric])
  then have "(2::nat) ^ m * p = 2 ^ m * (2 ^ (n - m) * q)" using assms(3) by (simp add: mult.assoc)
  then have eq: "p = 2 ^ (n - m) * q" by simp
  have "n - m = 0"
  proof (rule ccontr)
    assume "n - m \<noteq> 0"
    then have "even ((2::nat) ^ (n - m) * q)" by simp
    with eq assms(1) show False by simp
  qed
  with eq show ?thesis by simp
qed

lemma odd_part_unique:
  fixes p q m n :: nat
  assumes "odd p" "odd q" "2 ^ m * p = 2 ^ n * q"
  shows "p = q"
proof (cases "m \<le> n")
  case True
  with assms show ?thesis by (rule odd_part_le)
next
  case False
  then have "n \<le> m" by simp
  with assms(2,1) assms(3) [symmetric] have "q = p" by (rule odd_part_le)
  then show ?thesis by simp
qed

lemma nine_power_mod4: "(9::nat) ^ j mod 4 = 1"
proof -
  have "(9::nat) ^ j mod 4 = (9 mod 4) ^ j mod 4" by (simp only: power_mod)
  then show ?thesis by simp
qed

lemma thirtysix_power: "(36::nat) ^ j = 2 ^ (2 * j) * 9 ^ j"
proof -
  have "(36::nat) = 4 * 9" by simp
  then have "(36::nat) ^ j = 4 ^ j * 9 ^ j" by (simp only: power_mult_distrib)
  moreover have "(4::nat) ^ j = 2 ^ (2 * j)" by (simp add: power_mult)
  ultimately show ?thesis by simp
qed

lemma radix36_no_tie:
  fixes F a c i j :: nat
  assumes "odd F"
  shows "2 ^ a * (2 * F + 1) * 36 ^ i \<noteq> 2 ^ c * 36 ^ j"
proof
  assume eq: "2 ^ a * (2 * F + 1) * 36 ^ i = 2 ^ c * 36 ^ j"
  define u where "u = 2 * F + 1"
  define A where "A = (2::nat) ^ a"
  define C where "C = (2::nat) ^ c"
  define I where "I = (2::nat) ^ (2 * i)"
  define J where "J = (2::nat) ^ (2 * j)"
  define N where "N = (9::nat) ^ i"
  define M where "M = (9::nat) ^ j"
  have "A * u * (I * N) = C * (J * M)"
    using eq unfolding thirtysix_power u_def [symmetric] A_def C_def I_def J_def N_def M_def .
  then have "(A * I) * (u * N) = (C * J) * M" by (simp only: mult_ac)
  moreover have "A * I = 2 ^ (a + 2 * i)" unfolding A_def I_def by (rule power_add [symmetric])
  moreover have "C * J = 2 ^ (c + 2 * j)" unfolding C_def J_def by (rule power_add [symmetric])
  ultimately have e1: "2 ^ (a + 2 * i) * (u * N) = 2 ^ (c + 2 * j) * M" by (simp only:)
  have "odd u" unfolding u_def by simp
  moreover have "odd N" unfolding N_def by simp
  ultimately have o1: "odd (u * N)" by simp
  have o2: "odd M" unfolding M_def by simp
  have e2: "u * N = M" using o1 o2 e1 by (rule odd_part_unique)
  obtain g where g: "F = 2 * g + 1" using assms by (rule oddE)
  have "u = 4 * g + 3" unfolding u_def g by simp
  then have u3: "u mod 4 = 3" by presburger
  have "(u * N) mod 4 = ((u mod 4) * (N mod 4)) mod 4" by (simp only: mod_mult_eq)
  also have "\<dots> = (3 * 1) mod 4" unfolding u3 N_def nine_power_mod4 ..
  finally have "(u * N) mod 4 = 3" by simp
  moreover have "M mod 4 = 1" unfolding M_def by (rule nine_power_mod4)
  ultimately show False using e2 by simp
qed

lemma prepared_state:
  assumes cls: "fpclassify x = FP_NORMAL \<or> fpclassify x = FP_SUBNORMAL"
  shows "bi_is_normalized (nc_r (numconv_prepared nc_alloc x radix))"
    "bi_is_normalized (nc_s (numconv_prepared nc_alloc x radix))"
    "bi_is_normalized (nc_mp (numconv_prepared nc_alloc x radix))"
    "bi_is_normalized (nc_mm (numconv_prepared nc_alloc x radix))"
    "1 \<le> bi_val (nc_s (numconv_prepared nc_alloc x radix))"
    "1 \<le> bi_val (nc_mp (numconv_prepared nc_alloc x radix))"
    "1 \<le> bi_val (nc_mm (numconv_prepared nc_alloc x radix))"
    "2 * bi_val (nc_mm (numconv_prepared nc_alloc x radix)) \<le> bi_val (nc_r (numconv_prepared nc_alloc x radix))"
    "nc_B (numconv_prepared nc_alloc x radix) = radix"
    "nc_out_buf (numconv_prepared nc_alloc x radix) = []"
    "nc_emitted (numconv_prepared nc_alloc x radix) = []"
    "nc_out_first (numconv_prepared nc_alloc x radix) = 1"
    "nc_high_ok (numconv_prepared nc_alloc x radix) = 0 \<Longrightarrow>
       \<exists>F a c. odd F \<and>
         bi_val (nc_r (numconv_prepared nc_alloc x radix)) +
         bi_val (nc_mp (numconv_prepared nc_alloc x radix)) = 2 ^ a * (2 * F + 1) \<and>
         bi_val (nc_s (numconv_prepared nc_alloc x radix)) = 2 ^ c"
proof -
  define nc_a where "nc_a = numconv_init nc_alloc x radix"
  have xa: "nc_x nc_a = x" by (simp add: nc_a_def numconv_init_def)
  from convert_double_spec [of nc_a] obtain f' where
    cd: "dragon4_convert_double nc_a = nc_a\<lparr>nc_f := f', nc_e := double_exp x\<rparr>"
    and fv: "int (bi_val f') = double_mant x"
    unfolding xa by blast
  define nc_b where "nc_b = nc_a\<lparr>nc_f := f', nc_e := double_exp x\<rparr>"
  define P where "P = numconv_prepared nc_alloc x radix"
  have P: "P = dragon4_prepare nc_b"
    by (simp add: P_def numconv_prepared_def nc_a_def [symmetric] cd nc_b_def)
  define F where "F = bi_val f'"
  define e where "e = double_exp x"
  have fb: "nc_f nc_b = f'" and eb: "nc_e nc_b = e" by (simp_all add: nc_b_def e_def)
  have F1: "1 \<le> F" using double_mant_pos [OF cls] fv by (simp add: F_def)
  note pv = prepare_values [of nc_b, unfolded fb eb, folded P F_def]
  have n: "bi_is_normalized (nc_r P)" "bi_is_normalized (nc_s P)"
    "bi_is_normalized (nc_mp P)" "bi_is_normalized (nc_mm P)"
    unfolding P by (rule prepare_normalized)+
  have vals: "1 \<le> bi_val (nc_s P) \<and> 1 \<le> bi_val (nc_mp P) \<and> 1 \<le> bi_val (nc_mm P) \<and>
     2 * bi_val (nc_mm P) \<le> bi_val (nc_r P)"
  proof -
    consider (c1) "0 \<le> e" "bi_is_2to52 f'" | (c2) "0 \<le> e" "\<not> bi_is_2to52 f'"
      | (c3) "\<not> 0 \<le> e" "- 1022 < e \<and> bi_is_2to52 f'"
      | (c4) "\<not> 0 \<le> e" "\<not> (- 1022 < e \<and> bi_is_2to52 f')" by blast
    then show ?thesis
    proof cases
      case c1
      have "nat (e + 2) = Suc (Suc (nat e))" using c1(1) by simp
      moreover have "(2::nat) ^ nat e \<le> F * 2 ^ nat e" using F1 by simp
      ultimately show ?thesis using pv(1) [OF c1] by simp
    next
      case c2
      have "nat (e + 1) = Suc (nat e)" using c2(1) by simp
      moreover have "(2::nat) ^ nat e \<le> F * 2 ^ nat e" using F1 by simp
      ultimately show ?thesis using pv(2) [OF c2] by simp
    next
      case c3
      show ?thesis using pv(3) [OF c3] F1 by simp
    next
      case c4
      show ?thesis using pv(4) [OF c4] F1 by simp
    qed
  qed
  have fr: "nc_B P = radix" "nc_out_buf P = []" "nc_emitted P = []" "nc_out_first P = 1"
    unfolding P by (simp_all add: prepare_frame nc_b_def nc_a_def numconv_init_def)
  have tie: "\<exists>F a c. odd F \<and> bi_val (nc_r P) + bi_val (nc_mp P) = 2 ^ a * (2 * F + 1) \<and>
         bi_val (nc_s P) = 2 ^ c" if h: "nc_high_ok P = 0"
  proof -
    have "nc_high_ok P = (if bi_is_even f' then 1 else 0)"
      unfolding P by (simp add: prepare_frame fb)
    with h have "\<not> bi_is_even f'" by (simp split: if_splits)
    then have oddF: "odd F" by (simp add: bi_is_even_iff F_def)
    have nz: "\<not> bi_is_2to52 f'"
    proof
      assume "bi_is_2to52 f'"
      then have "F = 2 ^ 52" unfolding F_def by (rule bi_is_2to52_val)
      with oddF show False by simp
    qed
    show ?thesis
    proof (cases "0 \<le> e")
      case True
      have "nat (e + 1) = Suc (nat e)" using True by simp
      then have "bi_val (nc_r P) + bi_val (nc_mp P) = 2 ^ nat e * (2 * F + 1)"
        using pv(2) [OF True nz] by (simp add: algebra_simps)
      moreover have "bi_val (nc_s P) = 2 ^ 1" using pv(2) [OF True nz] by simp
      ultimately show ?thesis using oddF by blast
    next
      case False
      have c4: "\<not> (- 1022 < e \<and> bi_is_2to52 f')" using nz by simp
      have "bi_val (nc_r P) + bi_val (nc_mp P) = 2 ^ 0 * (2 * F + 1)"
        using pv(4) [OF False c4] by simp
      moreover have "bi_val (nc_s P) = 2 ^ nat (1 - e)" using pv(4) [OF False c4] by simp
      ultimately show ?thesis using oddF by blast
    qed
  qed
  show "bi_is_normalized (nc_r (numconv_prepared nc_alloc x radix))"
    "bi_is_normalized (nc_s (numconv_prepared nc_alloc x radix))"
    "bi_is_normalized (nc_mp (numconv_prepared nc_alloc x radix))"
    "bi_is_normalized (nc_mm (numconv_prepared nc_alloc x radix))"
    using n unfolding P_def by blast+
  show "1 \<le> bi_val (nc_s (numconv_prepared nc_alloc x radix))"
    "1 \<le> bi_val (nc_mp (numconv_prepared nc_alloc x radix))"
    "1 \<le> bi_val (nc_mm (numconv_prepared nc_alloc x radix))"
    "2 * bi_val (nc_mm (numconv_prepared nc_alloc x radix)) \<le> bi_val (nc_r (numconv_prepared nc_alloc x radix))"
    using vals unfolding P_def by blast+
  show "nc_B (numconv_prepared nc_alloc x radix) = radix"
    "nc_out_buf (numconv_prepared nc_alloc x radix) = []"
    "nc_emitted (numconv_prepared nc_alloc x radix) = []"
    "nc_out_first (numconv_prepared nc_alloc x radix) = 1"
    using fr unfolding P_def by blast+
  show "nc_high_ok (numconv_prepared nc_alloc x radix) = 0 \<Longrightarrow>
       \<exists>F a c. odd F \<and>
         bi_val (nc_r (numconv_prepared nc_alloc x radix)) +
         bi_val (nc_mp (numconv_prepared nc_alloc x radix)) = 2 ^ a * (2 * F + 1) \<and>
         bi_val (nc_s (numconv_prepared nc_alloc x radix)) = 2 ^ c"
    using tie unfolding P_def by blast
qed

lemma scaled_state:
  assumes cls: "fpclassify x = FP_NORMAL \<or> fpclassify x = FP_SUBNORMAL"
    and rad: "radix_ok radix"
  obtains Q j where
    "numconv_scaled nc_alloc x radix = Some Q"
    "bi_is_normalized (nc_r Q)" "bi_is_normalized (nc_s Q)"
    "bi_is_normalized (nc_mp Q)" "bi_is_normalized (nc_mm Q)"
    "1 \<le> bi_val (nc_mp Q)" "1 \<le> bi_val (nc_mm Q)"
    "below_flag (nc_high_ok Q) (bi_val (nc_r Q) + bi_val (nc_mp Q)) (bi_val (nc_s Q))"
    "reaches_flag (nc_high_ok Q) ((bi_val (nc_r Q) + bi_val (nc_mp Q)) * nat radix) (bi_val (nc_s Q))"
    "bi_val (nc_r Q) + bi_val (nc_mp Q) = bi_val (nc_s Q) \<longrightarrow> radix \<le> 35"
    "nc_B Q = radix" "nc_out_buf Q = []" "nc_emitted Q = []" "nc_out_first Q = 1"
    "nc_high_ok Q = nc_high_ok (numconv_prepared nc_alloc x radix)"
    "(nc_k Q = int j \<and>
       bi_val (nc_s Q) = bi_val (nc_s (numconv_prepared nc_alloc x radix)) * nat radix ^ j \<and>
       bi_val (nc_r Q) = bi_val (nc_r (numconv_prepared nc_alloc x radix)) \<and>
       bi_val (nc_mp Q) = bi_val (nc_mp (numconv_prepared nc_alloc x radix)) \<and>
       bi_val (nc_mm Q) = bi_val (nc_mm (numconv_prepared nc_alloc x radix))) \<or>
     (nc_k Q = - int j \<and>
       bi_val (nc_s Q) = bi_val (nc_s (numconv_prepared nc_alloc x radix)) \<and>
       bi_val (nc_r Q) = bi_val (nc_r (numconv_prepared nc_alloc x radix)) * nat radix ^ j \<and>
       bi_val (nc_mp Q) = bi_val (nc_mp (numconv_prepared nc_alloc x radix)) * nat radix ^ j \<and>
       bi_val (nc_mm Q) = bi_val (nc_mm (numconv_prepared nc_alloc x radix)) * nat radix ^ j)"
proof -
  define P where "P = numconv_prepared nc_alloc x radix"
  note ps = prepared_state [OF cls, of nc_alloc radix, folded P_def]
  have BP: "nc_B P = radix" by (rule ps(9))
  have radP: "radix_ok (nc_B P)" unfolding BP by (rule rad)
  have b2: "2 \<le> nat radix" using rad by (rule radix_nat_ge2)
  have rmp: "1 \<le> bi_val (nc_r P) + bi_val (nc_mp P)" using ps(6) by simp
  from dragon4_scale_spec [OF ps(1) ps(3) ps(4) ps(2) ps(5) rmp radP, unfolded BP]
  obtain j r' s' mp' mm' ta tb k where
    sc: "dragon4_scale P =
             Some (P\<lparr>nc_r := r', nc_s := s', nc_mp := mp', nc_mm := mm', nc_t1 := ta, nc_t2 := tb,
                       nc_k := k\<rparr>)"
    and n: "bi_is_normalized r'" "bi_is_normalized s'" "bi_is_normalized mp'" "bi_is_normalized mm'"
    and rel: "(k = int j \<and> bi_val s' = bi_val (nc_s P) * nat radix ^ j \<and> bi_val r' = bi_val (nc_r P) \<and>
               bi_val mp' = bi_val (nc_mp P) \<and> bi_val mm' = bi_val (nc_mm P)) \<or>
            (k = - int j \<and> bi_val s' = bi_val (nc_s P) \<and> bi_val r' = bi_val (nc_r P) * nat radix ^ j \<and>
               bi_val mp' = bi_val (nc_mp P) * nat radix ^ j \<and>
               bi_val mm' = bi_val (nc_mm P) * nat radix ^ j)"
    and bl: "below_flag (nc_high_ok P) (bi_val r' + bi_val mp') (bi_val s')"
    and re: "reaches_flag (nc_high_ok P) ((bi_val r' + bi_val mp') * nat radix) (bi_val s')"
    by blast
  define Q where "Q = P\<lparr>nc_r := r', nc_s := s', nc_mp := mp', nc_mm := mm', nc_t1 := ta, nc_t2 := tb,
                       nc_k := k\<rparr>"
  have sel: "nc_r Q = r'" "nc_s Q = s'" "nc_mp Q = mp'" "nc_mm Q = mm'" "nc_k Q = k"
    "nc_high_ok Q = nc_high_ok P" "nc_B Q = nc_B P" "nc_out_buf Q = nc_out_buf P"
    "nc_emitted Q = nc_emitted P" "nc_out_first Q = nc_out_first P"
    by (simp_all add: Q_def)
  have pw: "1 \<le> nat radix ^ j" using b2 by simp
  have mp1: "1 \<le> bi_val mp'"
  proof -
    have "bi_val (nc_mp P) \<le> bi_val (nc_mp P) * nat radix ^ j" using pw by simp
    then show ?thesis using rel ps(6) by auto
  qed
  have mm1: "1 \<le> bi_val mm'"
  proof -
    have "bi_val (nc_mm P) \<le> bi_val (nc_mm P) * nat radix ^ j" using pw by simp
    then show ?thesis using rel ps(7) by auto
  qed
  have tie: "bi_val r' + bi_val mp' = bi_val s' \<longrightarrow> radix \<le> 35"
  proof
    assume t: "bi_val r' + bi_val mp' = bi_val s'"
    show "radix \<le> 35"
    proof (rule ccontr)
      assume "\<not> radix \<le> 35"
      then have r36: "nat radix = 36" using rad by (simp add: radix_ok_def)
      have h0: "nc_high_ok P = 0"
      proof (rule ccontr)
        assume "nc_high_ok P \<noteq> 0"
        then have "bi_val r' + bi_val mp' < bi_val s'" using bl by (simp add: below_flag_def)
        with t show False by simp
      qed
      from ps(13) [OF h0] obtain F a c where oddF: "odd F"
        and v: "bi_val (nc_r P) + bi_val (nc_mp P) = 2 ^ a * (2 * F + 1)"
        and s: "bi_val (nc_s P) = 2 ^ c" by blast
      from rel show False
      proof
        assume A: "k = int j \<and> bi_val s' = bi_val (nc_s P) * nat radix ^ j \<and> bi_val r' = bi_val (nc_r P) \<and>
               bi_val mp' = bi_val (nc_mp P) \<and> bi_val mm' = bi_val (nc_mm P)"
        then have "bi_val r' + bi_val mp' = 2 ^ a * (2 * F + 1)" using v by simp
        moreover have "bi_val s' = 2 ^ c * 36 ^ j" using A s r36 by simp
        ultimately have "2 ^ a * (2 * F + 1) * 36 ^ 0 = 2 ^ c * 36 ^ j" using t by simp
        with radix36_no_tie [OF oddF, of a 0 c j] show False by blast
      next
        assume B: "k = - int j \<and> bi_val s' = bi_val (nc_s P) \<and> bi_val r' = bi_val (nc_r P) * nat radix ^ j \<and>
               bi_val mp' = bi_val (nc_mp P) * nat radix ^ j \<and>
               bi_val mm' = bi_val (nc_mm P) * nat radix ^ j"
        then have "bi_val r' + bi_val mp' = (bi_val (nc_r P) + bi_val (nc_mp P)) * 36 ^ j"
          using r36 by (simp add: add_mult_distrib)
        then have "bi_val r' + bi_val mp' = 2 ^ a * (2 * F + 1) * 36 ^ j" unfolding v .
        moreover have "bi_val s' = 2 ^ c * 36 ^ 0" using B s by simp
        ultimately have "2 ^ a * (2 * F + 1) * 36 ^ j = 2 ^ c * 36 ^ 0" using t by simp
        with radix36_no_tie [OF oddF, of a j c 0] show False by blast
      qed
    qed
  qed
  show thesis
  proof (rule that [of Q j])
    show "numconv_scaled nc_alloc x radix = Some Q"
      unfolding numconv_scaled_def P_def [symmetric] Q_def by (rule sc)
    show "bi_is_normalized (nc_r Q)" "bi_is_normalized (nc_s Q)"
      "bi_is_normalized (nc_mp Q)" "bi_is_normalized (nc_mm Q)"
      unfolding sel by (rule n)+
    show "1 \<le> bi_val (nc_mp Q)" unfolding sel by (rule mp1)
    show "1 \<le> bi_val (nc_mm Q)" unfolding sel by (rule mm1)
    show "below_flag (nc_high_ok Q) (bi_val (nc_r Q) + bi_val (nc_mp Q)) (bi_val (nc_s Q))"
      unfolding sel by (rule bl)
    show "reaches_flag (nc_high_ok Q) ((bi_val (nc_r Q) + bi_val (nc_mp Q)) * nat radix) (bi_val (nc_s Q))"
      unfolding sel by (rule re)
    show "bi_val (nc_r Q) + bi_val (nc_mp Q) = bi_val (nc_s Q) \<longrightarrow> radix \<le> 35"
      unfolding sel by (rule tie)
    show "nc_B Q = radix" "nc_out_buf Q = []" "nc_emitted Q = []" "nc_out_first Q = 1"
      unfolding sel by (rule ps(9) ps(10) ps(11) ps(12))+
    show "nc_high_ok Q = nc_high_ok (numconv_prepared nc_alloc x radix)"
      unfolding sel P_def ..
    show "(nc_k Q = int j \<and>
       bi_val (nc_s Q) = bi_val (nc_s (numconv_prepared nc_alloc x radix)) * nat radix ^ j \<and>
       bi_val (nc_r Q) = bi_val (nc_r (numconv_prepared nc_alloc x radix)) \<and>
       bi_val (nc_mp Q) = bi_val (nc_mp (numconv_prepared nc_alloc x radix)) \<and>
       bi_val (nc_mm Q) = bi_val (nc_mm (numconv_prepared nc_alloc x radix))) \<or>
     (nc_k Q = - int j \<and>
       bi_val (nc_s Q) = bi_val (nc_s (numconv_prepared nc_alloc x radix)) \<and>
       bi_val (nc_r Q) = bi_val (nc_r (numconv_prepared nc_alloc x radix)) * nat radix ^ j \<and>
       bi_val (nc_mp Q) = bi_val (nc_mp (numconv_prepared nc_alloc x radix)) * nat radix ^ j \<and>
       bi_val (nc_mm Q) = bi_val (nc_mm (numconv_prepared nc_alloc x radix)) * nat radix ^ j)"
      unfolding sel P_def [symmetric] by (rule rel)
  qed
qed

lemma prepared_quotients: "nc_quotients (numconv_prepared nc_alloc x radix) = []"
proof -
  define nc_a where "nc_a = numconv_init nc_alloc x radix"
  from convert_double_spec [of nc_a] obtain f' where
    cd: "dragon4_convert_double nc_a = nc_a\<lparr>nc_f := f', nc_e := double_exp (nc_x nc_a)\<rparr>"
    by blast
  have "nc_quotients (dragon4_prepare (dragon4_convert_double nc_a)) = nc_quotients nc_a"
    unfolding prepare_quotients cd by simp
  then show ?thesis by (simp add: numconv_prepared_def nc_a_def [symmetric]) (simp add: nc_a_def numconv_init_def)
qed

lemma scaled_quotients:
  assumes cls: "fpclassify x = FP_NORMAL \<or> fpclassify x = FP_SUBNORMAL"
    and rad: "radix_ok radix"
    and sc: "numconv_scaled nc_alloc x radix = Some Q"
  shows "nc_quotients Q = []"
proof -
  define P where "P = numconv_prepared nc_alloc x radix"
  note ps = prepared_state [OF cls, of nc_alloc radix, folded P_def]
  have BP: "nc_B P = radix" by (rule ps(9))
  have radP: "radix_ok (nc_B P)" unfolding BP by (rule rad)
  have rmp: "1 \<le> bi_val (nc_r P) + bi_val (nc_mp P)" using ps(6) by simp
  from dragon4_scale_spec [OF ps(1) ps(3) ps(4) ps(2) ps(5) rmp radP]
  obtain r' s' mp' mm' ta tb k where
    "dragon4_scale P =
       Some (P\<lparr>nc_r := r', nc_s := s', nc_mp := mp', nc_mm := mm', nc_t1 := ta, nc_t2 := tb,
                 nc_k := k\<rparr>)"
    by blast
  then have "Q = P\<lparr>nc_r := r', nc_s := s', nc_mp := mp', nc_mm := mm', nc_t1 := ta, nc_t2 := tb,
                 nc_k := k\<rparr>"
    using sc unfolding numconv_scaled_def P_def [symmetric] by simp
  then have "nc_quotients Q = nc_quotients P" by simp
  then show ?thesis unfolding P_def prepared_quotients .
qed

lemma digits_logged_range:
  assumes "digits_logged B qs ds"
  shows "\<forall>d \<in> set ds. 0 \<le> d \<and> d \<le> B"
proof
  fix d assume d: "d \<in> set ds"
  have ds: "ds \<noteq> []" and len: "length ds = length qs"
    and rng: "\<forall>q \<in> set qs. 0 \<le> q \<and> q \<le> B - 1"
    and bl: "butlast ds = butlast qs" and la: "last ds = last qs \<or> last ds = last qs + 1"
    using assms unfolding digits_logged_def by blast+
  have qs: "qs \<noteq> []" using ds len by auto
  have lq: "0 \<le> last qs \<and> last qs \<le> B - 1" using rng qs by simp
  have "ds = butlast ds @ [last ds]" using ds by simp
  then have "set ds = set (butlast ds) \<union> {last ds}" by (metis list.set(1,2) set_append)
  then consider "d \<in> set (butlast qs)" | "d = last ds" using d bl by auto
  then show "0 \<le> d \<and> d \<le> B"
  proof cases
    case 1
    then have "d \<in> set qs" by (rule in_set_butlastD)
    then show ?thesis using rng by auto
  next
    case 2
    then show ?thesis using la lq by auto
  qed
qed

text \<open>
  The slow path as a whole: it returns; the two logs are those of a run of Generate; and
  it ends either at a write past the end of the output buffer or with the buffer holding
  the sign, a body with a digit character and no NUL, and the final NUL.
\<close>

lemma slow_ctx_spec:
  assumes cls: "fpclassify x = FP_NORMAL \<or> fpclassify x = FP_SUBNORMAL"
    and rad: "radix_ok radix"
  shows "\<exists>nc4. digits_logged radix (nc_quotients nc4) (nc_emitted nc4) \<and>
     (numconv_slow_ctx nc_alloc x radix neg = Some (Inl (Out_Buf_Overflow, nc4)) \<or>
      (\<exists>body. numconv_slow_ctx nc_alloc x radix neg = Some (Inr nc4) \<and>
         nc_out_buf nc4 = (if neg \<noteq> 0 then [CHR ''-''] else []) @ body @ [CHR 0x00] \<and>
         CHR 0x00 \<notin> set body \<and> (\<exists>c \<in> set body. c \<in> set digits)))"
proof -
  obtain Q j where
    sc: "numconv_scaled nc_alloc x radix = Some Q"
    and n: "bi_is_normalized (nc_r Q)" "bi_is_normalized (nc_s Q)"
      "bi_is_normalized (nc_mp Q)" "bi_is_normalized (nc_mm Q)"
    and mp1: "1 \<le> bi_val (nc_mp Q)" and mm1: "1 \<le> bi_val (nc_mm Q)"
    and bl: "below_flag (nc_high_ok Q) (bi_val (nc_r Q) + bi_val (nc_mp Q)) (bi_val (nc_s Q))"
    and re: "reaches_flag (nc_high_ok Q) ((bi_val (nc_r Q) + bi_val (nc_mp Q)) * nat radix) (bi_val (nc_s Q))"
    and tie: "bi_val (nc_r Q) + bi_val (nc_mp Q) = bi_val (nc_s Q) \<longrightarrow> radix \<le> 35"
    and fr: "nc_B Q = radix" "nc_out_buf Q = []" "nc_emitted Q = []" "nc_out_first Q = 1"
    and hk: "nc_high_ok Q = nc_high_ok (numconv_prepared nc_alloc x radix)"
    and rel: "(nc_k Q = int j \<and>
       bi_val (nc_s Q) = bi_val (nc_s (numconv_prepared nc_alloc x radix)) * nat radix ^ j \<and>
       bi_val (nc_r Q) = bi_val (nc_r (numconv_prepared nc_alloc x radix)) \<and>
       bi_val (nc_mp Q) = bi_val (nc_mp (numconv_prepared nc_alloc x radix)) \<and>
       bi_val (nc_mm Q) = bi_val (nc_mm (numconv_prepared nc_alloc x radix))) \<or>
     (nc_k Q = - int j \<and>
       bi_val (nc_s Q) = bi_val (nc_s (numconv_prepared nc_alloc x radix)) \<and>
       bi_val (nc_r Q) = bi_val (nc_r (numconv_prepared nc_alloc x radix)) * nat radix ^ j \<and>
       bi_val (nc_mp Q) = bi_val (nc_mp (numconv_prepared nc_alloc x radix)) * nat radix ^ j \<and>
       bi_val (nc_mm Q) = bi_val (nc_mm (numconv_prepared nc_alloc x radix)) * nat radix ^ j)"
    by (rule scaled_state [OF cls rad, of nc_alloc])
  have qz: "nc_quotients Q = []" using cls rad sc by (rule scaled_quotients)
  define sign where "sign = (if neg \<noteq> 0 then [CHR ''-''] else [])"
  define nc2 where "nc2 = (if neg \<noteq> 0 then Q\<lparr>nc_out_buf := [CHR ''-'']\<rparr> else Q)"
  have pre: "(if neg \<noteq> 0 then NUMCONV_PUTCHAR Q (CHR ''-'') else Inr Q) = Inr nc2"
    by (simp add: nc2_def NUMCONV_PUTCHAR_def fr)
  have sel: "nc_r nc2 = nc_r Q" "nc_s nc2 = nc_s Q" "nc_mp nc2 = nc_mp Q" "nc_mm nc2 = nc_mm Q"
    "nc_B nc2 = radix" "nc_emitted nc2 = []" "nc_out_buf nc2 = sign" "nc_quotients nc2 = []"
    by (simp_all add: nc2_def fr qz sign_def)
  have slow: "numconv_slow_ctx nc_alloc x radix neg =
      (case dragon4_generate nc2 of
         None \<Rightarrow> None
       | Some (Inl err) \<Rightarrow> Some (Inl err)
       | Some (Inr nc3) \<Rightarrow> Some (NUMCONV_PUTCHAR nc3 (CHR 0x00)))"
    by (simp only: numconv_slow_ctx_def sc option.case pre sum.case)
  have le: "bi_val (nc_r nc2) + bi_val (nc_mp nc2) \<le> bi_val (nc_s nc2)"
    unfolding sel using bl by (rule below_flag_le)
  have "generate_post nc2 0 (dragon4_generate_loop nc2 0)"
  proof (rule generate_loop_spec)
    show "bi_is_normalized (nc_s nc2)" unfolding sel by (rule n(2))
    show "radix_ok (nc_B nc2)" unfolding sel by (rule rad)
    show "1 \<le> bi_val (nc_mm nc2)" unfolding sel by (rule mm1)
    show "1 \<le> bi_val (nc_mp nc2)" unfolding sel by (rule mp1)
    show "bi_val (nc_r nc2) + bi_val (nc_mp nc2) \<le> bi_val (nc_s nc2)" by (rule le)
    show "bi_val (nc_r nc2) + bi_val (nc_mp nc2) = bi_val (nc_s nc2) \<longrightarrow> nc_B nc2 \<le> 35"
      unfolding sel by (rule tie)
  qed
  then obtain nc' qs ds where
    q: "nc_quotients nc' = nc_quotients nc2 @ qs" and em: "nc_emitted nc' = nc_emitted nc2 @ ds"
    and dl: "digits_logged (nc_B nc2) qs ds"
    and alt: "dragon4_generate_loop nc2 0 = Some (Inl (Out_Buf_Overflow, nc')) \<or>
         (\<exists>cs. dragon4_generate_loop nc2 0 = Some (Inr (nc', 0 + int (length ds))) \<and>
            nc_out_buf nc' = nc_out_buf nc2 @ cs \<and> CHR 0x00 \<notin> set cs \<and>
            (\<exists>c \<in> set cs. c \<in> set digits) \<and> nc_k nc' = nc_k nc2)"
    unfolding generate_post_def by blast
  have dl': "digits_logged radix (nc_quotients nc') (nc_emitted nc')"
    using dl unfolding q em sel by simp
  from alt show ?thesis
  proof
    assume "dragon4_generate_loop nc2 0 = Some (Inl (Out_Buf_Overflow, nc'))"
    then have "numconv_slow_ctx nc_alloc x radix neg = Some (Inl (Out_Buf_Overflow, nc'))"
      unfolding slow dragon4_generate_def by simp
    with dl' show ?thesis by blast
  next
    assume "\<exists>cs. dragon4_generate_loop nc2 0 = Some (Inr (nc', 0 + int (length ds))) \<and>
            nc_out_buf nc' = nc_out_buf nc2 @ cs \<and> CHR 0x00 \<notin> set cs \<and>
            (\<exists>c \<in> set cs. c \<in> set digits) \<and> nc_k nc' = nc_k nc2"
    then obtain cs where
      gl: "dragon4_generate_loop nc2 0 = Some (Inr (nc', 0 + int (length ds)))"
      and ob: "nc_out_buf nc' = nc_out_buf nc2 @ cs" and nul: "CHR 0x00 \<notin> set cs"
      and dg: "\<exists>c \<in> set cs. c \<in> set digits" by blast
    have gen: "dragon4_generate nc2 = Some (dragon4_finish nc' (0 + int (length ds)))"
      unfolding dragon4_generate_def gl by simp
    have "buf_writes {CHR ''0''} nc' (dragon4_finish nc' (0 + int (length ds)))"
      by (rule dragon4_finish_writes)
    then consider (ok) zs where
        "dragon4_finish nc' (0 + int (length ds)) = Inr (nc'\<lparr>nc_out_buf := nc_out_buf nc' @ zs\<rparr>)"
        "set zs \<subseteq> {CHR ''0''}"
      | (ov) b where
        "dragon4_finish nc' (0 + int (length ds)) = Inl (Out_Buf_Overflow, nc'\<lparr>nc_out_buf := b\<rparr>)"
      unfolding buf_writes_def by blast
    then show ?thesis
    proof cases
      case ov
      have "numconv_slow_ctx nc_alloc x radix neg = Some (Inl (Out_Buf_Overflow, nc'\<lparr>nc_out_buf := b\<rparr>))"
        unfolding slow gen ov by simp
      moreover have "digits_logged radix (nc_quotients (nc'\<lparr>nc_out_buf := b\<rparr>))
          (nc_emitted (nc'\<lparr>nc_out_buf := b\<rparr>))" using dl' by simp
      ultimately show ?thesis by blast
    next
      case ok
      define nc3 where "nc3 = nc'\<lparr>nc_out_buf := nc_out_buf nc' @ zs\<rparr>"
      have dl3: "digits_logged radix (nc_quotients nc3) (nc_emitted nc3)"
        using dl' by (simp add: nc3_def)
      have slow3: "numconv_slow_ctx nc_alloc x radix neg = Some (NUMCONV_PUTCHAR nc3 (CHR 0x00))"
        unfolding slow gen ok(1) nc3_def by simp
      show ?thesis
      proof (cases "length (nc_out_buf nc3) < 512")
        case False
        then have "numconv_slow_ctx nc_alloc x radix neg = Some (Inl (Out_Buf_Overflow, nc3))"
          unfolding slow3 by (simp add: NUMCONV_PUTCHAR_def)
        with dl3 show ?thesis by blast
      next
        case True
        define nc4 where "nc4 = nc3\<lparr>nc_out_buf := nc_out_buf nc3 @ [CHR 0x00]\<rparr>"
        have 1: "numconv_slow_ctx nc_alloc x radix neg = Some (Inr nc4)"
          unfolding slow3 nc4_def using True by (simp add: NUMCONV_PUTCHAR_def)
        have 2: "digits_logged radix (nc_quotients nc4) (nc_emitted nc4)"
          using dl3 by (simp add: nc4_def)
        have 3: "nc_out_buf nc4 = (if neg \<noteq> 0 then [CHR ''-''] else []) @ (cs @ zs) @ [CHR 0x00]"
          by (simp add: nc4_def nc3_def ob sel sign_def)
        have 4: "CHR 0x00 \<notin> set (cs @ zs)" using nul ok(2) by auto
        have 5: "\<exists>c \<in> set (cs @ zs). c \<in> set digits" using dg by auto
        from 1 2 3 4 5 show ?thesis by blast
      qed
    qed
  qed
qed



lemma bounds_scaled_real:
  fixes \<beta> c L U s' v v' :: real
  assumes b: "0 < \<beta>" and c: "0 < c" and LU: "L * \<beta> = U" and Us: "U * c = s'" and vv: "v * c = v'"
  shows "(L \<le> v) = (s' \<le> v' * \<beta>)" "(L < v) = (s' < v' * \<beta>)"
    "(v < U) = (v' < s')" "(v \<le> U) = (v' \<le> s')"
proof -
  define d where "d = \<beta> * c"
  have p: "0 < d" using b c by (simp add: d_def)
  have l: "L * d = s'" using LU Us by (simp add: d_def mult.assoc [symmetric])
  have r: "v * d = v' * \<beta>" using vv by (simp add: d_def mult.commute mult.left_commute)
  have "(L \<le> v) = (L * d \<le> v * d)" using p by (simp add: mult_le_cancel_right)
  then show "(L \<le> v) = (s' \<le> v' * \<beta>)" unfolding l r .
  have "(L < v) = (L * d < v * d)" using p by (simp add: mult_less_cancel_right)
  then show "(L < v) = (s' < v' * \<beta>)" unfolding l r .
  have "(v < U) = (v * c < U * c)" using c by (simp add: mult_less_cancel_right)
  then show "(v < U) = (v' < s')" unfolding Us vv .
  have "(v \<le> U) = (v * c \<le> U * c)" using c by (simp add: mult_le_cancel_right)
  then show "(v \<le> U) = (v' \<le> s')" unfolding Us vv .
qed

lemma scale_bounds_shift:
  fixes b v s v' s' j :: nat
  assumes b2: "2 \<le> b"
    and bl: "below_flag h v' s'"
    and re: "reaches_flag h (v' * b) s'"
    and rel: "(k = int j \<and> s' = s * b ^ j \<and> v' = v) \<or> (k = - int j \<and> s' = s \<and> v' = v * b ^ j)"
  shows "scale_bounds (int b) h k v s"
proof -
  define \<beta> where "\<beta> = real b"
  have bp: "0 < \<beta>" using b2 by (simp add: \<beta>_def)
  have bn: "\<beta> \<noteq> 0" using bp by simp
  have pj: "0 < \<beta> ^ j" using bp by simp
  have B: "real_of_int (int b) = \<beta>" by (simp add: \<beta>_def)
  define L where "L = \<beta> powi (k - 1) * real s"
  define U where "U = \<beta> powi k * real s"
  have "\<beta> powi ((k - 1) + 1) = \<beta> powi (k - 1) * \<beta> powi 1"
    by (rule power_int_add) (use bn in simp)
  then have "\<beta> powi k = \<beta> powi (k - 1) * \<beta>" by simp
  then have LU: "L * \<beta> = U" by (simp add: L_def U_def)
  have "\<exists>c. 0 < c \<and> U * c = real s' \<and> real v * c = real v'"
    using rel
  proof
    assume A: "k = int j \<and> s' = s * b ^ j \<and> v' = v"
    have pk: "\<beta> powi k = \<beta> ^ j" using A by simp
    have s': "real s' = real s * \<beta> ^ j" using A by (simp add: \<beta>_def)
    have e2: "U * 1 = real s'" unfolding U_def pk s' by simp
    have e3: "real v * 1 = real v'" using A by simp
    show ?thesis using e2 e3 by (intro exI [of _ 1]) simp
  next
    assume Bc: "k = - int j \<and> s' = s \<and> v' = v * b ^ j"
    have "\<beta> powi k = inverse (\<beta> powi (int j))" using Bc by (simp add: power_int_minus)
    moreover have "\<beta> ^ j \<noteq> 0" using bn by simp
    then have "inverse (\<beta> ^ j) * \<beta> ^ j = 1" by (rule left_inverse)
    ultimately have pk: "\<beta> powi k * \<beta> ^ j = 1" by simp
    have s': "real s' = real s" using Bc by simp
    have "U * \<beta> ^ j = (\<beta> powi k * \<beta> ^ j) * real s" unfolding U_def by simp
    then have e2: "U * \<beta> ^ j = real s'" unfolding pk s' by simp
    have e3: "real v * \<beta> ^ j = real v'" using Bc by (simp add: \<beta>_def)
    show ?thesis using e2 e3 pj by (intro exI [of _ "\<beta> ^ j"]) simp
  qed
  then obtain c where c: "0 < c" and Us: "U * c = real s'" and vv: "real v * c = real v'" by blast
  note eq = bounds_scaled_real [OF bp c LU Us vv]
  have vb: "real v' * \<beta> = real (v' * b)" by (simp add: \<beta>_def)
  show ?thesis
  proof (cases "h \<noteq> 0")
    case True
    have "v' < s'" using bl True by (simp add: below_flag_def)
    then have u: "real v < U" unfolding eq(3) by simp
    have "s' \<le> v' * b" using re True by (simp add: reaches_flag_def)
    then have "real s' \<le> real (v' * b)" by (simp only: of_nat_le_iff)
    then have l: "L \<le> real v" unfolding eq(1) vb .
    show ?thesis unfolding scale_bounds_def B using True l u by (simp add: L_def U_def)
  next
    case False
    have "v' \<le> s'" using bl False by (simp add: below_flag_def)
    then have u: "real v \<le> U" unfolding eq(4) by simp
    have "s' < v' * b" using re False by (simp add: reaches_flag_def)
    then have "real s' < real (v' * b)" by (simp only: of_nat_less_iff)
    then have l: "L < real v" unfolding eq(2) vb .
    show ?thesis unfolding scale_bounds_def B using False l u by (simp add: L_def U_def)
  qed
qed

section \<open>The exposed function\<close>

lemma bit_two_power_u64: "k < 64 \<Longrightarrow> bit ((2::u64) ^ k) n = (n = k)"
  by (auto simp: bit_exp_iff possible_bit_word)

lemma bit_sign_mask: "bit (push_bit 63 1 :: u64) n = (n = 63)"
proof -
  have "(63::nat) < 64" by simp
  then have "bit ((2::u64) ^ 63) n = (n = 63)" by (rule bit_two_power_u64)
  then show ?thesis by (simp only: push_bit_of_1)
qed

lemma xor_top_bit_fields:
  fixes x p :: u64
  assumes "\<And>n. bit p n = (n = 63)"
  shows "drop_bit 52 (x XOR p) AND mask 11 = drop_bit 52 x AND mask 11"
    and "(x XOR p) AND mask 52 = x AND mask 52"
    and "bit (x XOR p) 63 = (\<not> bit x 63)"
proof -
  show "drop_bit 52 (x XOR p) AND mask 11 = drop_bit 52 x AND mask 11"
    by (rule bit_word_eqI) (auto simp: bit_and_iff bit_mask_iff bit_drop_bit_eq bit_xor_iff assms)
  show "(x XOR p) AND mask 52 = x AND mask 52"
    by (rule bit_word_eqI) (auto simp: bit_and_iff bit_mask_iff bit_xor_iff assms)
  show "bit (x XOR p) 63 = (\<not> bit x 63)"
    by (simp add: bit_xor_iff assms)
qed

lemma negate_exp_field: "double_exp_field (double_negate x) = double_exp_field x"
  unfolding double_exp_field_def double_negate_def mask11'
  by (simp only: xor_top_bit_fields(1) [of "push_bit 63 1" x, OF bit_sign_mask])

lemma negate_frac_field: "double_frac_field (double_negate x) = double_frac_field x"
  unfolding double_frac_field_def double_negate_def mask52
  by (simp only: xor_top_bit_fields(2) [of "push_bit 63 1" x, OF bit_sign_mask])

lemma negate_sign_bit: "double_sign_bit (double_negate x) = (\<not> double_sign_bit x)"
  unfolding double_sign_bit_def double_negate_def
  by (simp only: xor_top_bit_fields(3) [of "push_bit 63 1" x, OF bit_sign_mask])

lemma negate_fields:
  "fpclassify (double_negate x) = fpclassify x"
  "double_mant (double_negate x) = double_mant x"
  "double_exp (double_negate x) = double_exp x"
  by (simp_all add: fpclassify_def double_mant_def double_exp_def negate_exp_field negate_frac_field)





text \<open>
  The dispatch of \<open>duk_numconv_stringify\<close> on a finite non-zero \<open>x0\<close>: the fast path or the
  slow path, on the absolute value.
\<close>

lemma stringify_finite:
  assumes "fpclassify x0 = FP_NORMAL \<or> fpclassify x0 = FP_SUBNORMAL"
  shows "duk_numconv_stringify nc_alloc x0 radix hint =
     (if radix = 10 \<and>
         uint_eq_double (double_to_uint (if double_less_zero x0 then double_negate x0 else x0))
           (if double_less_zero x0 then double_negate x0 else x0)
      then Some (Inr (Push_sprintf (double_less_zero x0)
             (double_to_uint (if double_less_zero x0 then double_negate x0 else x0))))
      else numconv_slow_path nc_alloc (if double_less_zero x0 then double_negate x0 else x0) radix
             (if double_less_zero x0 then 1 else 0))"
proof (cases "double_less_zero x0")
  case True
  with assms show ?thesis by (auto simp: duk_numconv_stringify_def)
next
  case False
  with assms show ?thesis by (auto simp: duk_numconv_stringify_def)
qed



text \<open>
  A run that does not fit the output buffer: the double \<open>2^516\<close> in radix 2. Scale returns
  \<open>k = 517\<close>, the one round of Generate emits the digit \<open>1\<close>, and \<open>dragon4_finish\<close> fills the
  buffer with zeros and writes past its end.
\<close>

lemma finish_loop_overflow:
  "length (nc_out_buf nc) \<le> 512 \<Longrightarrow> 512 - length (nc_out_buf nc) < nat pos \<Longrightarrow>
   dragon4_finish_loop nc pos =
     Inl (Out_Buf_Overflow,
          nc\<lparr>nc_out_buf := nc_out_buf nc @ replicate (512 - length (nc_out_buf nc)) (CHR ''0'')\<rparr>)"
proof (induction nc pos rule: dragon4_finish_loop.induct)
  case (1 nc pos)
  have pos: "\<not> pos \<le> 0" using "1.prems"(2) by simp
  show ?case
  proof (cases "length (nc_out_buf nc) < 512")
    case False
    then have l: "length (nc_out_buf nc) = 512" using "1.prems"(1) by simp
    have "dragon4_finish_loop nc pos = Inl (Out_Buf_Overflow, nc)"
      using pos l by (subst dragon4_finish_loop.simps) (simp add: NUMCONV_PUTCHAR_def)
    then show ?thesis by (simp add: l)
  next
    case True
    define nc1 where "nc1 = nc\<lparr>nc_out_buf := nc_out_buf nc @ [CHR ''0'']\<rparr>"
    have p: "NUMCONV_PUTCHAR nc (CHR ''0'') = Inr nc1"
      using True by (simp add: NUMCONV_PUTCHAR_def nc1_def)
    have l1: "length (nc_out_buf nc1) = Suc (length (nc_out_buf nc))" by (simp add: nc1_def)
    have a: "length (nc_out_buf nc1) \<le> 512" using True l1 by simp
    have b: "512 - length (nc_out_buf nc1) < nat (pos - 1)" using "1.prems"(2) True l1 by simp
    have "dragon4_finish_loop nc pos = dragon4_finish_loop nc1 (pos - 1)"
      using pos by (subst dragon4_finish_loop.simps) (simp add: p)
    also have "\<dots> = Inl (Out_Buf_Overflow,
          nc1\<lparr>nc_out_buf := nc_out_buf nc1 @ replicate (512 - length (nc_out_buf nc1)) (CHR ''0'')\<rparr>)"
      using pos p a b by (rule "1.IH")
    also have "nc1\<lparr>nc_out_buf := nc_out_buf nc1 @ replicate (512 - length (nc_out_buf nc1)) (CHR ''0'')\<rparr>
       = nc\<lparr>nc_out_buf := nc_out_buf nc @ replicate (512 - length (nc_out_buf nc)) (CHR ''0'')\<rparr>"
    proof -
      have "512 - length (nc_out_buf nc) = Suc (512 - length (nc_out_buf nc1))" using True l1 by simp
      then have "replicate (512 - length (nc_out_buf nc)) (CHR ''0'') =
          CHR ''0'' # replicate (512 - length (nc_out_buf nc1)) (CHR ''0'')" by simp
      then show ?thesis by (simp add: nc1_def)
    qed
    finally show ?thesis .
  qed
qed

lemma pow2_between:
  fixes j e :: nat
  assumes "2 ^ (e + 54) + 2 ^ (e + 1) < (4::nat) * 2 ^ j"
    and "(4::nat) * 2 ^ j \<le> (2 ^ (e + 54) + 2 ^ (e + 1)) * 2"
  shows "j = e + 53"
proof -
  have f: "(4::nat) * 2 ^ j = 2 ^ (j + 2)" by simp
  have "(2::nat) ^ (e + 54) < 2 ^ (j + 2)" using assms(1) unfolding f by simp
  then have 1: "e + 54 < j + 2" by (simp only: power_strict_increasing_iff one_less_numeral_iff semiring_norm)
  have "(2::nat) ^ (e + 1) < 2 ^ (e + 54)" by (rule power_strict_increasing) simp_all
  then have "((2::nat) ^ (e + 54) + 2 ^ (e + 1)) * 2 < (2 ^ (e + 54) + 2 ^ (e + 54)) * 2" by simp
  also have "\<dots> = 2 ^ (e + 56)"
  proof -
    have "e + 56 = (e + 54) + 2" by simp
    then have "(2::nat) ^ (e + 56) = 2 ^ (e + 54) * 2 ^ 2" by (simp only: power_add)
    then show ?thesis by simp
  qed
  finally have "(2::nat) ^ (j + 2) < 2 ^ (e + 56)" using assms(2) unfolding f by simp
  then have 2: "j + 2 < e + 56" by (simp only: power_strict_increasing_iff one_less_numeral_iff semiring_norm)
  from 1 2 show ?thesis by simp
qed

lemma slow_ctx_overruns_for_2_pow_516:
  "\<exists>nc. numconv_slow_ctx nc_alloc 0x6030000000000000 2 0 = Some (Inl (Out_Buf_Overflow, nc)) \<and>
     nc_k nc = 517 \<and> nc_emitted nc = [1] \<and> nc_quotients nc = [1] \<and> length (nc_out_buf nc) = 512"
proof -
  define x :: u64 where "x = 0x6030000000000000"
  define E :: nat where "E = 464"
  have cls: "fpclassify x = FP_NORMAL \<or> fpclassify x = FP_SUBNORMAL" unfolding x_def by code_simp
  have rad: "radix_ok 2" by (simp add: radix_ok_def)
  define nc_b where "nc_b = dragon4_convert_double (numconv_init nc_alloc x 2)"
  have f: "nc_f nc_b = [0, 0x100000]" and e: "nc_e nc_b = 464"
    by (simp_all add: nc_b_def x_def numconv_init_def dragon4_convert_double_def Let_def
        IEEE_DOUBLE_EXP_BIAS_def)
  have z: "bi_is_2to52 (nc_f nc_b)" unfolding f by (simp add: bi_is_2to52_def)
  have F: "bi_val (nc_f nc_b) = 2 ^ 52" using z by (rule bi_is_2to52_val)
  have e0: "0 \<le> nc_e nc_b" unfolding e by simp
  define P where "P = numconv_prepared nc_alloc x 2"
  have P: "P = dragon4_prepare nc_b" by (simp add: P_def numconv_prepared_def nc_b_def)
  have n2: "nat (nc_e nc_b + 2) = E + 2" and n1: "nat (nc_e nc_b + 1) = E + 1"
    and n0: "nat (nc_e nc_b) = E"
    unfolding e E_def by simp_all
  note pv = prepare_values(1) [OF e0 z, unfolded F n2 n1 n0, folded P]
  have "(2::nat) ^ 52 * 2 ^ (E + 2) = 2 ^ (52 + (E + 2))" by (simp only: power_add)
  also have "52 + (E + 2) = E + 54" by simp
  finally have Rv: "bi_val (nc_r P) = 2 ^ (E + 54)" using pv by simp
  have Sv: "bi_val (nc_s P) = 4" and MPv: "bi_val (nc_mp P) = 2 ^ (E + 1)"
    and MMv: "bi_val (nc_mm P) = 2 ^ E"
    using pv by blast+
  have hP: "nc_high_ok P = 1" unfolding P prepare_frame(7) f by (simp add: bi_is_even_def)
  obtain Q j where
    sc: "numconv_scaled nc_alloc x 2 = Some Q"
    and n: "bi_is_normalized (nc_r Q)" "bi_is_normalized (nc_s Q)"
      "bi_is_normalized (nc_mp Q)" "bi_is_normalized (nc_mm Q)"
    and mp1: "1 \<le> bi_val (nc_mp Q)" and mm1: "1 \<le> bi_val (nc_mm Q)"
    and bl: "below_flag (nc_high_ok Q) (bi_val (nc_r Q) + bi_val (nc_mp Q)) (bi_val (nc_s Q))"
    and re: "reaches_flag (nc_high_ok Q) ((bi_val (nc_r Q) + bi_val (nc_mp Q)) * nat 2) (bi_val (nc_s Q))"
    and tie: "bi_val (nc_r Q) + bi_val (nc_mp Q) = bi_val (nc_s Q) \<longrightarrow> (2::int) \<le> 35"
    and fr: "nc_B Q = 2" "nc_out_buf Q = []" "nc_emitted Q = []" "nc_out_first Q = 1"
    and hk: "nc_high_ok Q = nc_high_ok (numconv_prepared nc_alloc x 2)"
    and rel: "(nc_k Q = int j \<and>
       bi_val (nc_s Q) = bi_val (nc_s (numconv_prepared nc_alloc x 2)) * nat 2 ^ j \<and>
       bi_val (nc_r Q) = bi_val (nc_r (numconv_prepared nc_alloc x 2)) \<and>
       bi_val (nc_mp Q) = bi_val (nc_mp (numconv_prepared nc_alloc x 2)) \<and>
       bi_val (nc_mm Q) = bi_val (nc_mm (numconv_prepared nc_alloc x 2))) \<or>
     (nc_k Q = - int j \<and>
       bi_val (nc_s Q) = bi_val (nc_s (numconv_prepared nc_alloc x 2)) \<and>
       bi_val (nc_r Q) = bi_val (nc_r (numconv_prepared nc_alloc x 2)) * nat 2 ^ j \<and>
       bi_val (nc_mp Q) = bi_val (nc_mp (numconv_prepared nc_alloc x 2)) * nat 2 ^ j \<and>
       bi_val (nc_mm Q) = bi_val (nc_mm (numconv_prepared nc_alloc x 2)) * nat 2 ^ j)"
    by (rule scaled_state [OF cls rad, of nc_alloc])
  have qz: "nc_quotients Q = []" using cls rad sc by (rule scaled_quotients)
  have hQ: "nc_high_ok Q = 1" unfolding hk P_def [symmetric] by (rule hP)
  have b2: "nat 2 = (2::nat)" by simp
  have lt: "bi_val (nc_r Q) + bi_val (nc_mp Q) < bi_val (nc_s Q)"
    using bl unfolding hQ by (simp add: below_flag_def)
  have ge: "bi_val (nc_s Q) \<le> (bi_val (nc_r Q) + bi_val (nc_mp Q)) * 2"
    using re unfolding hQ b2 by (simp add: reaches_flag_def)
  have four: "(4::nat) \<le> 2 ^ (E + 54)"
  proof -
    have "(2::nat) ^ 2 \<le> 2 ^ (E + 54)" by (rule power_increasing) simp_all
    then show ?thesis by simp
  qed
  have vals: "nc_k Q = int (E + 53) \<and> bi_val (nc_s Q) = 4 * 2 ^ (E + 53) \<and>
      bi_val (nc_r Q) = 2 ^ (E + 54) \<and> bi_val (nc_mp Q) = 2 ^ (E + 1) \<and> bi_val (nc_mm Q) = 2 ^ E"
    using rel unfolding P_def [symmetric] Rv Sv MPv MMv b2
  proof
    assume A: "nc_k Q = int j \<and> bi_val (nc_s Q) = 4 * 2 ^ j \<and> bi_val (nc_r Q) = 2 ^ (E + 54) \<and>
       bi_val (nc_mp Q) = 2 ^ (E + 1) \<and> bi_val (nc_mm Q) = 2 ^ E"
    have 1: "2 ^ (E + 54) + 2 ^ (E + 1) < (4::nat) * 2 ^ j" using lt A by simp
    have 2: "(4::nat) * 2 ^ j \<le> (2 ^ (E + 54) + 2 ^ (E + 1)) * 2" using ge A by simp
    have "j = E + 53" using 1 2 by (rule pow2_between)
    then show ?thesis using A by simp
  next
    assume B: "nc_k Q = - int j \<and> bi_val (nc_s Q) = 4 \<and> bi_val (nc_r Q) = 2 ^ (E + 54) * 2 ^ j \<and>
       bi_val (nc_mp Q) = 2 ^ (E + 1) * 2 ^ j \<and> bi_val (nc_mm Q) = 2 ^ E * 2 ^ j"
    have "(2::nat) ^ (E + 54) \<le> 2 ^ (E + 54) * 2 ^ j" by simp
    with four have "(4::nat) \<le> 2 ^ (E + 54) * 2 ^ j" by (rule order_trans)
    moreover have "bi_val (nc_r Q) = 2 ^ (E + 54) * 2 ^ j" using B by blast
    ultimately have "4 \<le> bi_val (nc_r Q)" by (simp only:)
    then have False using lt B by simp
    then show ?thesis ..
  qed
  have kQ: "nc_k Q = int (E + 53)" and SQ: "bi_val (nc_s Q) = 4 * 2 ^ (E + 53)"
    and RQ: "bi_val (nc_r Q) = 2 ^ (E + 54)" and MPQ: "bi_val (nc_mp Q) = 2 ^ (E + 1)"
    and MMQ: "bi_val (nc_mm Q) = 2 ^ E"
    using vals by blast+
  have S1: "1 \<le> bi_val (nc_s Q)" unfolding SQ by simp
  have radQ: "radix_ok (nc_B Q)" unfolding fr by (rule rad)
  have RS: "bi_val (nc_r Q) * nat (nc_B Q) = bi_val (nc_s Q)"
  proof -
    have "E + 54 = Suc (E + 53)" by simp
    then have "(2::nat) ^ (E + 54) = 2 * 2 ^ (E + 53)" by (simp only: power_Suc)
    then show ?thesis unfolding RQ SQ fr by simp
  qed
  have dv: "bi_val (nc_r Q) * nat (nc_B Q) div bi_val (nc_s Q) = 1"
    and md: "bi_val (nc_r Q) * nat (nc_B Q) mod bi_val (nc_s Q) = 0"
    unfolding RS using S1 by simp_all
  from generate_step_spec [OF n(2) S1 radQ, unfolded dv md]
  obtain r' mp' mm' ta tb where
    step: "dragon4_generate_step Q =
             Some (Q\<lparr>nc_r := r', nc_mp := mp', nc_mm := mm', nc_t1 := ta, nc_t2 := tb,
                      nc_quotients := nc_quotients Q @ [int 1]\<rparr>, int 1)"
    and nn: "bi_is_normalized r'" "bi_is_normalized mp'" "bi_is_normalized mm'" "bi_is_normalized ta"
    and rv: "bi_val r' = 0" and mpv: "bi_val mp' = bi_val (nc_mp Q) * nat (nc_B Q)"
    and mmv: "bi_val mm' = bi_val (nc_mm Q) * nat (nc_B Q)"
    and tav: "bi_val ta = bi_val r' + bi_val mp'"
    by blast
  define nc4 where "nc4 = Q\<lparr>nc_r := r', nc_mp := mp', nc_mm := mm', nc_t1 := ta, nc_t2 := tb,
                      nc_quotients := [1]\<rparr>"
  have step': "dragon4_generate_step Q = Some (nc4, 1)" unfolding step nc4_def qz by simp
  have tc1: "generate_tc1 nc4 \<noteq> 0"
  proof -
    have "(generate_tc1 nc4 \<noteq> 0) =
      (if nc_low_ok nc4 \<noteq> 0 then bi_val (nc_r nc4) \<le> bi_val (nc_mm nc4)
       else bi_val (nc_r nc4) < bi_val (nc_mm nc4))"
      by (rule generate_tc1_iff) (simp_all add: nc4_def nn)
    moreover have "bi_val (nc_r nc4) = 0" by (simp add: nc4_def rv)
    moreover have "0 < bi_val (nc_mm nc4)" by (simp add: nc4_def mmv MMQ fr)
    ultimately show ?thesis by simp
  qed
  have tc2: "generate_tc2 nc4 = 0"
  proof -
    have "(generate_tc2 nc4 \<noteq> 0) = (bi_val (nc_s nc4) \<le> bi_val (nc_t1 nc4))"
      by (rule generate_tc2_iff) (simp_all add: nc4_def nn n)
    moreover have "bi_val (nc_t1 nc4) = 2 ^ (E + 2)" by (simp add: nc4_def tav rv mpv MPQ fr)
    moreover have "bi_val (nc_s nc4) = 2 ^ (E + 55)"
    proof -
      have "E + 55 = (E + 53) + 2" by simp
      then have "(2::nat) ^ (E + 55) = 2 ^ (E + 53) * 2 ^ 2" by (simp only: power_add)
      then show ?thesis by (simp add: nc4_def SQ)
    qed
    moreover have "(2::nat) ^ (E + 2) < 2 ^ (E + 55)" by (rule power_strict_increasing) simp_all
    ultimately show ?thesis by simp
  qed
  have sel4: "nc_k nc4 = int (E + 53)" "nc_out_first nc4 = 1" "nc_out_buf nc4 = []"
    "nc_emitted nc4 = []" "nc_quotients nc4 = [1]"
    by (simp_all add: nc4_def kQ fr)
  define nc6 where "nc6 = nc4\<lparr>nc_emitted := [1], nc_out_buf := [digits ! nat 1], nc_out_first := 0\<rparr>"
  have pos: "\<not> int (E + 53) \<le> 0" "int (E + 53) \<noteq> 0" by simp_all
  have out: "dragon4_output nc4 1 0 = Inr nc6"
    unfolding dragon4_output_def Let_def nc6_def
    by (simp add: sel4 NUMCONV_PUTCHAR_def)
  have loop: "dragon4_generate_loop Q 0 = Some (Inr (nc6, 1))"
    using tc1 tc2 by (subst dragon4_generate_loop.simps) (simp add: step' Let_def out)
  have sel6: "nc_k nc6 = int (E + 53)" "length (nc_out_buf nc6) = 1" "nc_emitted nc6 = [1]"
    "nc_quotients nc6 = [1]"
    by (simp_all add: nc6_def sel4)
  define nc7 where "nc7 = nc6\<lparr>nc_out_buf := nc_out_buf nc6 @ replicate (512 - length (nc_out_buf nc6)) (CHR ''0'')\<rparr>"
  have "dragon4_finish_loop nc6 (nc_k nc6 - 1) = Inl (Out_Buf_Overflow, nc7)"
    unfolding nc7_def by (rule finish_loop_overflow) (simp_all add: sel6 E_def)
  then have fin: "dragon4_finish nc6 1 = Inl (Out_Buf_Overflow, nc7)"
    by (simp add: dragon4_finish_def sel6)
  have gen: "dragon4_generate Q = Some (Inl (Out_Buf_Overflow, nc7))"
    unfolding dragon4_generate_def loop by (simp add: fin)
  have "numconv_slow_ctx nc_alloc x 2 0 = Some (Inl (Out_Buf_Overflow, nc7))"
    unfolding numconv_slow_ctx_def sc by (simp add: gen)
  moreover have "nc_k nc7 = 517" "nc_emitted nc7 = [1]" "nc_quotients nc7 = [1]"
    "length (nc_out_buf nc7) = 512"
    by (simp_all add: nc7_def sel6 E_def)
  ultimately show ?thesis unfolding x_def by blast
qed


section \<open>The claims\<close>

text \<open>
  Claim C1. The claim: \<open>tc2\<close> holds iff \<open>compare(r + m+, s) \<ge> 0\<close> when \<open>high_ok\<close> is set, and iff
  \<open>compare(r + m+, s) \<ge> 1\<close> when it is not. The source tests the address of the flag, so
  \<open>tc2\<close> holds iff \<open>compare(r + m+, s) \<ge> 0\<close> whatever the flag. The double
  \<open>18014398509481988\<close> (bit pattern \<open>0x4350000000000001\<close>) has an odd significand, so
  \<open>high_ok = 0\<close>; in radix 10, after sixteen digits, \<open>r + m+ = s\<close>, and the code rounds up and
  stops: it pushes \<open>18014398509481990\<close>, the midpoint to the next double.
\<close>

theorem generate_tc2_ignores_high_ok:
  "generate_tc2 nc = (if 0 \<le> bi_compare (nc_t1 nc) (nc_s nc) then 1 else 0) \<and>
   map_option (map_sum id duk_pushed_string)
     (duk_numconv_stringify nc_cleared 0x4350000000000001 10 0) =
   Some (Inr ''18014398509481990'')"
proof
  show "generate_tc2 nc = (if 0 \<le> bi_compare (nc_t1 nc) (nc_s nc) then 1 else 0)"
    by (simp add: generate_tc2_def addr_of_high_ok_is_nonnull_def)
  show "map_option (map_sum id duk_pushed_string)
     (duk_numconv_stringify nc_cleared 0x4350000000000001 10 0) =
   Some (Inr ''18014398509481990'')"
    by code_simp
qed

text \<open>
  Claim C2. The claim: for \<open>e < 0\<close> the unequal-gaps case is taken exactly when \<open>e > -1074\<close> and
  \<open>f = 2^52\<close>. The source compares \<open>e\<close>, which is the exponent field minus 1075, with
  \<open>IEEE_DOUBLE_EXP_MIN = -1022\<close>. For the double \<open>2^-1021\<close> (bit pattern
  \<open>0x0020000000000000\<close>) decomposition gives \<open>e = -1073\<close> and \<open>f = 2^52\<close>, and setup takes the
  equal-gaps case: \<open>r = f * 2\<close>, \<open>s = 2^(1 - e)\<close>, \<open>m+ = m- = 1\<close>.
\<close>

theorem prepare_equal_gaps_above_min_exponent:
  "nc_e (numconv_prepared nc_alloc 0x0020000000000000 radix) = - 1073 \<and>
   bi_val (nc_f (numconv_prepared nc_alloc 0x0020000000000000 radix)) = 2 ^ 52 \<and>
   bi_val (nc_r (numconv_prepared nc_alloc 0x0020000000000000 radix)) = 2 ^ 52 * 2 \<and>
   bi_val (nc_s (numconv_prepared nc_alloc 0x0020000000000000 radix)) = 2 ^ (1 + 1073) \<and>
   bi_val (nc_mp (numconv_prepared nc_alloc 0x0020000000000000 radix)) = 1 \<and>
   bi_val (nc_mm (numconv_prepared nc_alloc 0x0020000000000000 radix)) = 1"
proof -
  define nc_b where "nc_b = dragon4_convert_double (numconv_init nc_alloc 0x0020000000000000 radix)"
  have f: "nc_f nc_b = [0, 0x100000]" and e: "nc_e nc_b = - 1073"
    by (simp_all add: nc_b_def numconv_init_def dragon4_convert_double_def Let_def
        IEEE_DOUBLE_EXP_BIAS_def)
  have F: "bi_val (nc_f nc_b) = 2 ^ 52" unfolding f by simp
  have c: "\<not> 0 \<le> nc_e nc_b" "\<not> (- 1022 < nc_e nc_b \<and> bi_is_2to52 (nc_f nc_b))"
    unfolding e by simp_all
  have P: "numconv_prepared nc_alloc 0x0020000000000000 radix = dragon4_prepare nc_b"
    by (simp add: numconv_prepared_def nc_b_def)
  have n: "nat (1 - nc_e nc_b) = 1 + 1073" unfolding e by simp
  note v = prepare_values(4) [OF c, unfolded F n]
  have "nc_e (dragon4_prepare nc_b) = - 1073" unfolding prepare_frame(6) by (rule e)
  moreover have "bi_val (nc_f (dragon4_prepare nc_b)) = 2 ^ 52" unfolding prepare_frame(5) by (rule F)
  moreover have "bi_val (nc_r (dragon4_prepare nc_b)) = 2 ^ 52 * 2" using v by blast
  moreover have "bi_val (nc_s (dragon4_prepare nc_b)) = 2 ^ (1 + 1073)" using v by blast
  moreover have "bi_val (nc_mp (dragon4_prepare nc_b)) = 1" using v by blast
  moreover have "bi_val (nc_mm (dragon4_prepare nc_b)) = 1" using v by blast
  ultimately show ?thesis unfolding P by blast
qed

text \<open>
  Claim C3. The claim: all seven bigints stay normalized between operations; in particular the
  significand \<open>f\<close> is normalized after double decomposition, for every finite positive
  input including denormals. The source sets \<open>f.n = 2\<close> and never calls \<open>bi_normalize\<close>:
  for the smallest positive denormal (bit pattern 1) it leaves \<open>f.n = 2\<close> with the limbs
  \<open>v[0] = 1\<close>, \<open>v[1] = 0\<close>, a zero top limb.
\<close>

theorem convert_double_denormal_top_limb_zero:
  "nc_f (dragon4_convert_double (nc\<lparr>nc_x := 0x0000000000000001\<rparr>)) = [1, 0]"
  by (simp add: dragon4_convert_double_def Let_def)

text \<open>
  Claim C4, as amended. For a finite non-zero double and a radix from 2 to 36, Scale returns
  with a result \<open>k\<close>, and the bounds \<open>B^(k-1) * s \<le> r + m+ < B^k * s\<close>, flag-adjusted, hold of the
  values \<open>r\<close>, \<open>s\<close>, \<open>m+\<close> that Scale started from; of the values it leaves they hold with
  the exponent \<open>0\<close> in place of \<open>k\<close>: \<open>B^(-1) * s \<le> r + m+ < s\<close>.
\<close>

theorem scale_bounds_of_setup_values:
  assumes "fpclassify x = FP_NORMAL \<or> fpclassify x = FP_SUBNORMAL" and "radix_ok radix"
  shows "\<exists>Q. numconv_scaled nc_alloc x radix = Some Q \<and>
           scale_bounds radix (nc_high_ok Q) (nc_k Q)
             (bi_val (nc_r (numconv_prepared nc_alloc x radix)) +
              bi_val (nc_mp (numconv_prepared nc_alloc x radix)))
             (bi_val (nc_s (numconv_prepared nc_alloc x radix))) \<and>
           scale_bounds radix (nc_high_ok Q) 0
             (bi_val (nc_r Q) + bi_val (nc_mp Q)) (bi_val (nc_s Q))"
proof -
  define P where "P = numconv_prepared nc_alloc x radix"
  obtain Q j where
    sc: "numconv_scaled nc_alloc x radix = Some Q"
    and n: "bi_is_normalized (nc_r Q)" "bi_is_normalized (nc_s Q)"
      "bi_is_normalized (nc_mp Q)" "bi_is_normalized (nc_mm Q)"
    and mp1: "1 \<le> bi_val (nc_mp Q)" and mm1: "1 \<le> bi_val (nc_mm Q)"
    and bl: "below_flag (nc_high_ok Q) (bi_val (nc_r Q) + bi_val (nc_mp Q)) (bi_val (nc_s Q))"
    and re: "reaches_flag (nc_high_ok Q) ((bi_val (nc_r Q) + bi_val (nc_mp Q)) * nat radix) (bi_val (nc_s Q))"
    and tie: "bi_val (nc_r Q) + bi_val (nc_mp Q) = bi_val (nc_s Q) \<longrightarrow> radix \<le> 35"
    and fr: "nc_B Q = radix" "nc_out_buf Q = []" "nc_emitted Q = []" "nc_out_first Q = 1"
    and hk: "nc_high_ok Q = nc_high_ok (numconv_prepared nc_alloc x radix)"
    and rel: "(nc_k Q = int j \<and>
       bi_val (nc_s Q) = bi_val (nc_s (numconv_prepared nc_alloc x radix)) * nat radix ^ j \<and>
       bi_val (nc_r Q) = bi_val (nc_r (numconv_prepared nc_alloc x radix)) \<and>
       bi_val (nc_mp Q) = bi_val (nc_mp (numconv_prepared nc_alloc x radix)) \<and>
       bi_val (nc_mm Q) = bi_val (nc_mm (numconv_prepared nc_alloc x radix))) \<or>
     (nc_k Q = - int j \<and>
       bi_val (nc_s Q) = bi_val (nc_s (numconv_prepared nc_alloc x radix)) \<and>
       bi_val (nc_r Q) = bi_val (nc_r (numconv_prepared nc_alloc x radix)) * nat radix ^ j \<and>
       bi_val (nc_mp Q) = bi_val (nc_mp (numconv_prepared nc_alloc x radix)) * nat radix ^ j \<and>
       bi_val (nc_mm Q) = bi_val (nc_mm (numconv_prepared nc_alloc x radix)) * nat radix ^ j)"
    by (rule scaled_state [OF assms, of nc_alloc])
  have b2: "2 \<le> nat radix" using assms(2) by (rule radix_nat_ge2)
  have rb: "radix = int (nat radix)" using b2 by simp
  define v' where "v' = bi_val (nc_r Q) + bi_val (nc_mp Q)"
  define v where "v = bi_val (nc_r P) + bi_val (nc_mp P)"
  have rel': "(nc_k Q = int j \<and> bi_val (nc_s Q) = bi_val (nc_s P) * nat radix ^ j \<and> v' = v) \<or>
              (nc_k Q = - int j \<and> bi_val (nc_s Q) = bi_val (nc_s P) \<and> v' = v * nat radix ^ j)"
    using rel unfolding P_def [symmetric] v'_def v_def by (auto simp: add_mult_distrib)
  have rel0: "((0::int) = int 0 \<and> bi_val (nc_s Q) = bi_val (nc_s Q) * nat radix ^ 0 \<and> v' = v') \<or>
              ((0::int) = - int 0 \<and> bi_val (nc_s Q) = bi_val (nc_s Q) \<and> v' = v' * nat radix ^ 0)"
    by simp
  have "scale_bounds (int (nat radix)) (nc_high_ok Q) (nc_k Q) v (bi_val (nc_s P))"
    using b2 bl [folded v'_def] re [folded v'_def] rel' by (rule scale_bounds_shift)
  then have one: "scale_bounds radix (nc_high_ok Q) (nc_k Q) v (bi_val (nc_s P))"
    unfolding rb [symmetric] .
  have "scale_bounds (int (nat radix)) (nc_high_ok Q) 0 v' (bi_val (nc_s Q))"
    using b2 bl [folded v'_def] re [folded v'_def] rel0 by (rule scale_bounds_shift)
  then have two: "scale_bounds radix (nc_high_ok Q) 0 v' (bi_val (nc_s Q))"
    unfolding rb [symmetric] .
  from sc one two show ?thesis unfolding v_def v'_def P_def by blast
qed

theorem scale_bounds_of_setup_values_witness:
  "\<exists>Q. numconv_scaled nc_cleared 0x3ff0000000000000 2 = Some Q \<and>
     scale_bounds 2 (nc_high_ok Q) (nc_k Q)
       (bi_val (nc_r (numconv_prepared nc_cleared 0x3ff0000000000000 2)) +
        bi_val (nc_mp (numconv_prepared nc_cleared 0x3ff0000000000000 2)))
       (bi_val (nc_s (numconv_prepared nc_cleared 0x3ff0000000000000 2))) \<and>
     scale_bounds 2 (nc_high_ok Q) 0 (bi_val (nc_r Q) + bi_val (nc_mp Q)) (bi_val (nc_s Q))"
proof (rule scale_bounds_of_setup_values)
  show "fpclassify 0x3ff0000000000000 = FP_NORMAL \<or> fpclassify 0x3ff0000000000000 = FP_SUBNORMAL"
    by code_simp
  show "radix_ok 2" by (simp add: radix_ok_def)
qed

text \<open>
  The claim as it is worded, of the values that Scale leaves, fails for the double \<open>1.0\<close> in
  radix 2: Scale returns \<open>k = 1\<close> with \<open>r + m+ = 2^54 + 2\<close> and \<open>s = 2^55\<close>, so that
  \<open>B^(k-1) * s = 2^55\<close> is above \<open>r + m+\<close>.
\<close>

theorem scale_bounds_fail_for_scaled_values:
  "numconv_scaled nc_cleared 0x3ff0000000000000 2 \<noteq> None \<and>
   nc_k (the (numconv_scaled nc_cleared 0x3ff0000000000000 2)) = 1 \<and>
   nc_high_ok (the (numconv_scaled nc_cleared 0x3ff0000000000000 2)) = 1 \<and>
   bi_val (nc_r (the (numconv_scaled nc_cleared 0x3ff0000000000000 2))) +
   bi_val (nc_mp (the (numconv_scaled nc_cleared 0x3ff0000000000000 2))) = 2 ^ 54 + 2 \<and>
   bi_val (nc_s (the (numconv_scaled nc_cleared 0x3ff0000000000000 2))) = 2 ^ 55 \<and>
   \<not> scale_bounds 2
       (nc_high_ok (the (numconv_scaled nc_cleared 0x3ff0000000000000 2)))
       (nc_k (the (numconv_scaled nc_cleared 0x3ff0000000000000 2)))
       (bi_val (nc_r (the (numconv_scaled nc_cleared 0x3ff0000000000000 2))) +
        bi_val (nc_mp (the (numconv_scaled nc_cleared 0x3ff0000000000000 2))))
       (bi_val (nc_s (the (numconv_scaled nc_cleared 0x3ff0000000000000 2))))"
proof -
  define Q where "Q = the (numconv_scaled nc_cleared 0x3ff0000000000000 2)"
  have nn: "numconv_scaled nc_cleared 0x3ff0000000000000 2 \<noteq> None" by code_simp
  have k: "nc_k Q = 1" unfolding Q_def by code_simp
  have h: "nc_high_ok Q = 1" unfolding Q_def by code_simp
  have r: "nc_r Q = [0, 0x400000]" unfolding Q_def by code_simp
  have mp: "nc_mp Q = [2]" unfolding Q_def by code_simp
  have s: "nc_s Q = [0, 0x800000]" unfolding Q_def by code_simp
  have v: "bi_val (nc_r Q) + bi_val (nc_mp Q) = 2 ^ 54 + 2" unfolding r mp by simp
  have sv: "bi_val (nc_s Q) = 2 ^ 55" unfolding s by simp
  have "\<not> scale_bounds 2 (nc_high_ok Q) (nc_k Q) (bi_val (nc_r Q) + bi_val (nc_mp Q)) (bi_val (nc_s Q))"
    unfolding k h v sv by (simp add: scale_bounds_def)
  with nn k h v sv show ?thesis unfolding Q_def by blast
qed

text \<open>
  Claim C5. The claim: after Scale the first digit of Generate lies in \<open>[1, B - 1]\<close>. For the
  double \<open>7^19 - 1 = 11398895185373142\<close> (bit pattern \<open>0x43443f9e0d2d93eb\<close>) in radix 7 the
  only digit index that Generate passes to the emitter is \<open>7\<close>, the radix itself, and the
  string pushed is \<open>7\<close> followed by eighteen zeros.
\<close>

theorem generate_first_digit_is_radix:
  "map_option (map_sum id nc_emitted) (numconv_slow_ctx nc_cleared 0x43443f9e0d2d93eb 7 0) =
     Some (Inr [7]) \<and>
   map_option (map_sum id duk_pushed_string)
     (duk_numconv_stringify nc_cleared 0x43443f9e0d2d93eb 7 0) =
   Some (Inr ''7000000000000000000'')"
  by code_simp

text \<open>
  Claim C6. For a finite non-zero double and a radix from 2 to 36 the slow path returns, and
  it ends either normally or at a write past the end of the output buffer, never at a read
  outside the digit table. Up to there, Generate has run at least one round; every
  quotient digit of its division lies between \<open>0\<close> and \<open>B - 1\<close>; the digit index passed to the
  emitter is the quotient digit of the round, but for the last round, where it can be the
  quotient digit plus one; so every index passed lies between \<open>0\<close> and \<open>B\<close>.
\<close>

theorem generate_digit_indices_in_range:
  assumes "fpclassify x = FP_NORMAL \<or> fpclassify x = FP_SUBNORMAL" and "radix_ok radix"
  shows "\<exists>nc. (numconv_slow_ctx nc_alloc x radix neg = Some (Inr nc) \<or>
                numconv_slow_ctx nc_alloc x radix neg = Some (Inl (Out_Buf_Overflow, nc))) \<and>
           nc_emitted nc \<noteq> [] \<and> length (nc_emitted nc) = length (nc_quotients nc) \<and>
           (\<forall>q \<in> set (nc_quotients nc). 0 \<le> q \<and> q \<le> radix - 1) \<and>
           butlast (nc_emitted nc) = butlast (nc_quotients nc) \<and>
           (last (nc_emitted nc) = last (nc_quotients nc) \<or>
            last (nc_emitted nc) = last (nc_quotients nc) + 1) \<and>
           (\<forall>d \<in> set (nc_emitted nc). 0 \<le> d \<and> d \<le> radix)"
proof -
  from slow_ctx_spec [OF assms, of nc_alloc neg] obtain nc4 where
    dl: "digits_logged radix (nc_quotients nc4) (nc_emitted nc4)"
    and alt: "numconv_slow_ctx nc_alloc x radix neg = Some (Inl (Out_Buf_Overflow, nc4)) \<or>
      (\<exists>body. numconv_slow_ctx nc_alloc x radix neg = Some (Inr nc4) \<and>
         nc_out_buf nc4 = (if neg \<noteq> 0 then [CHR ''-''] else []) @ body @ [CHR 0x00] \<and>
         CHR 0x00 \<notin> set body \<and> (\<exists>c \<in> set body. c \<in> set digits))"
    by blast
  have 1: "numconv_slow_ctx nc_alloc x radix neg = Some (Inr nc4) \<or>
           numconv_slow_ctx nc_alloc x radix neg = Some (Inl (Out_Buf_Overflow, nc4))"
    using alt by blast
  have 2: "nc_emitted nc4 \<noteq> []" "length (nc_emitted nc4) = length (nc_quotients nc4)"
    "\<forall>q \<in> set (nc_quotients nc4). 0 \<le> q \<and> q \<le> radix - 1"
    "butlast (nc_emitted nc4) = butlast (nc_quotients nc4)"
    "last (nc_emitted nc4) = last (nc_quotients nc4) \<or>
     last (nc_emitted nc4) = last (nc_quotients nc4) + 1"
    using dl unfolding digits_logged_def by blast+
  have 3: "\<forall>d \<in> set (nc_emitted nc4). 0 \<le> d \<and> d \<le> radix"
    using dl by (rule digits_logged_range)
  from 1 2 3 show ?thesis by blast
qed

theorem generate_digit_indices_in_range_witness:
  "\<exists>nc. (numconv_slow_ctx nc_cleared 0x43443f9e0d2d93eb 7 0 = Some (Inr nc) \<or>
         numconv_slow_ctx nc_cleared 0x43443f9e0d2d93eb 7 0 = Some (Inl (Out_Buf_Overflow, nc))) \<and>
     nc_emitted nc \<noteq> [] \<and> length (nc_emitted nc) = length (nc_quotients nc) \<and>
     (\<forall>q \<in> set (nc_quotients nc). 0 \<le> q \<and> q \<le> 7 - 1) \<and>
     butlast (nc_emitted nc) = butlast (nc_quotients nc) \<and>
     (last (nc_emitted nc) = last (nc_quotients nc) \<or>
      last (nc_emitted nc) = last (nc_quotients nc) + 1) \<and>
     (\<forall>d \<in> set (nc_emitted nc). 0 \<le> d \<and> d \<le> 7)"
proof (rule generate_digit_indices_in_range)
  show "fpclassify 0x43443f9e0d2d93eb = FP_NORMAL \<or> fpclassify 0x43443f9e0d2d93eb = FP_SUBNORMAL"
    by code_simp
  show "radix_ok 7" by (simp add: radix_ok_def)
qed

text \<open>
  Claim C7. Whatever the radix, \<open>duk_numconv_stringify\<close> pushes a fixed literal for a
  special value and no error: \<open>NaN\<close> for a NaN of either sign bit, \<open>Infinity\<close> and \<open>-Infinity\<close>
  for the two infinities, and \<open>0\<close> for a zero of either sign bit.
\<close>

theorem stringify_special_values:
  "(fpclassify x = FP_NAN \<longrightarrow>
      map_option (map_sum id duk_pushed_string) (duk_numconv_stringify nc_alloc x radix hint) =
      Some (Inr ''NaN'')) \<and>
   (fpclassify x = FP_INFINITE \<and> \<not> double_sign_bit x \<longrightarrow>
      map_option (map_sum id duk_pushed_string) (duk_numconv_stringify nc_alloc x radix hint) =
      Some (Inr ''Infinity'')) \<and>
   (fpclassify x = FP_INFINITE \<and> double_sign_bit x \<longrightarrow>
      map_option (map_sum id duk_pushed_string) (duk_numconv_stringify nc_alloc x radix hint) =
      Some (Inr ''-Infinity'')) \<and>
   (fpclassify x = FP_ZERO \<longrightarrow>
      map_option (map_sum id duk_pushed_string) (duk_numconv_stringify nc_alloc x radix hint) =
      Some (Inr ''0''))"
proof (intro conjI impI)
  assume "fpclassify x = FP_NAN"
  then show "map_option (map_sum id duk_pushed_string) (duk_numconv_stringify nc_alloc x radix hint) =
      Some (Inr ''NaN'')"
    by (cases "double_less_zero x") (simp_all add: duk_numconv_stringify_def)
next
  assume "fpclassify x = FP_INFINITE \<and> \<not> double_sign_bit x"
  then have "fpclassify x = FP_INFINITE" "\<not> double_less_zero x" by (simp_all add: double_less_zero_def)
  then show "map_option (map_sum id duk_pushed_string) (duk_numconv_stringify nc_alloc x radix hint) =
      Some (Inr ''Infinity'')"
    by (simp add: duk_numconv_stringify_def)
next
  assume "fpclassify x = FP_INFINITE \<and> double_sign_bit x"
  then have "fpclassify x = FP_INFINITE" "double_less_zero x" by (simp_all add: double_less_zero_def)
  then show "map_option (map_sum id duk_pushed_string) (duk_numconv_stringify nc_alloc x radix hint) =
      Some (Inr ''-Infinity'')"
    by (simp add: duk_numconv_stringify_def)
next
  assume "fpclassify x = FP_ZERO"
  then have "fpclassify x = FP_ZERO" "\<not> double_less_zero x" by (simp_all add: double_less_zero_def)
  then show "map_option (map_sum id duk_pushed_string) (duk_numconv_stringify nc_alloc x radix hint) =
      Some (Inr ''0'')"
    by (simp add: duk_numconv_stringify_def)
qed

theorem stringify_special_values_witness:
  "map_option (map_sum id duk_pushed_string)
     (duk_numconv_stringify nc_cleared 0x7ff8000000000000 2 0) = Some (Inr ''NaN'') \<and>
   map_option (map_sum id duk_pushed_string)
     (duk_numconv_stringify nc_cleared 0xfff8000000000000 10 0) = Some (Inr ''NaN'') \<and>
   map_option (map_sum id duk_pushed_string)
     (duk_numconv_stringify nc_cleared 0x7ff0000000000000 16 0) = Some (Inr ''Infinity'') \<and>
   map_option (map_sum id duk_pushed_string)
     (duk_numconv_stringify nc_cleared 0xfff0000000000000 36 0) = Some (Inr ''-Infinity'') \<and>
   map_option (map_sum id duk_pushed_string)
     (duk_numconv_stringify nc_cleared 0x0000000000000000 10 0) = Some (Inr ''0'') \<and>
   map_option (map_sum id duk_pushed_string)
     (duk_numconv_stringify nc_cleared 0x8000000000000000 7 0) = Some (Inr ''0'')"
proof -
  have a: "fpclassify 0x7ff8000000000000 = FP_NAN" by code_simp
  have b: "fpclassify 0xfff8000000000000 = FP_NAN" by code_simp
  have c: "fpclassify 0x7ff0000000000000 = FP_INFINITE \<and> \<not> double_sign_bit 0x7ff0000000000000"
    by code_simp
  have d: "fpclassify 0xfff0000000000000 = FP_INFINITE \<and> double_sign_bit 0xfff0000000000000"
    by code_simp
  have e: "fpclassify 0x0000000000000000 = FP_ZERO" by code_simp
  have f: "fpclassify 0x8000000000000000 = FP_ZERO" by code_simp
  note w1 = stringify_special_values [of "0x7ff8000000000000" nc_cleared 2 0,
      THEN conjunct1, THEN mp, OF a]
  note w2 = stringify_special_values [of "0xfff8000000000000" nc_cleared 10 0,
      THEN conjunct1, THEN mp, OF b]
  note w3 = stringify_special_values [of "0x7ff0000000000000" nc_cleared 16 0,
      THEN conjunct2, THEN conjunct1, THEN mp, OF c]
  note w4 = stringify_special_values [of "0xfff0000000000000" nc_cleared 36 0,
      THEN conjunct2, THEN conjunct2, THEN conjunct1, THEN mp, OF d]
  note w5 = stringify_special_values [of "0x0000000000000000" nc_cleared 10 0,
      THEN conjunct2, THEN conjunct2, THEN conjunct2, THEN mp, OF e]
  note w6 = stringify_special_values [of "0x8000000000000000" nc_cleared 7 0,
      THEN conjunct2, THEN conjunct2, THEN conjunct2, THEN mp, OF f]
  show ?thesis by (intro conjI) (rule w1 w2 w3 w4 w5 w6)+
qed

text \<open>
  Claim C8. Let \<open>x0\<close> be a finite non-zero double whose absolute value, the significand
  \<open>double_mant x0\<close> times two to the power \<open>double_exp x0\<close>, is an integer \<open>n\<close> below \<open>2^32\<close>. With
  radix 10, \<open>duk_numconv_stringify\<close> takes the fast path: it pushes, by \<open>duk_push_sprintf\<close>
  and whatever the content of the context, the decimal rendering of \<open>n\<close> with a \<open>-\<close> before it
  exactly when the sign bit of \<open>x0\<close> is set.
\<close>

theorem stringify_fast_path:
  assumes "fpclassify x0 = FP_NORMAL \<or> fpclassify x0 = FP_SUBNORMAL"
    and "n < 2 ^ 32"
    and "double_mant x0 * 2 ^ nat (double_exp x0) = int n * 2 ^ nat (- double_exp x0)"
  shows "duk_numconv_stringify nc_alloc x0 10 hint =
           Some (Inr (Push_sprintf (double_sign_bit x0) (of_nat n))) \<and>
         duk_pushed_string (Push_sprintf (double_sign_bit x0) (of_nat n)) =
           (if double_sign_bit x0 then [CHR ''-''] else []) @ fmt_u (of_nat n)"
proof -
  define ax where "ax = (if double_less_zero x0 then double_negate x0 else x0)"
  have lz: "double_less_zero x0 = double_sign_bit x0"
    using assms(1) by (auto simp: double_less_zero_def)
  have m: "double_mant ax = double_mant x0" and e: "double_exp ax = double_exp x0"
    by (simp_all add: ax_def negate_fields)
  have "unat (of_nat n :: u32) = n" using assms(2) by (simp add: unat_of_nat)
  then have un: "uint (of_nat n :: u32) = int n" by (simp only: uint_nat)
  have du: "double_to_uint ax = of_nat n \<and> uint_eq_double (of_nat n) ax"
  proof (cases "0 \<le> double_exp x0")
    case True
    have "nat (- double_exp x0) = 0" using True by simp
    then have v: "double_mant x0 * 2 ^ nat (double_exp x0) = int n" using assms(3) by simp
    show ?thesis using True by (simp add: double_to_uint_def uint_eq_double_def m e v un)
  next
    case False
    have "nat (double_exp x0) = 0" using False by simp
    then have v: "double_mant x0 = int n * 2 ^ nat (- double_exp x0)" using assms(3) by simp
    show ?thesis using False by (simp add: double_to_uint_def uint_eq_double_def m e v un)
  qed
  have "duk_numconv_stringify nc_alloc x0 10 hint =
     (if (10::int) = 10 \<and> uint_eq_double (double_to_uint ax) ax
      then Some (Inr (Push_sprintf (double_less_zero x0) (double_to_uint ax)))
      else numconv_slow_path nc_alloc ax 10 (if double_less_zero x0 then 1 else 0))"
    unfolding ax_def by (rule stringify_finite [OF assms(1)])
  then have "duk_numconv_stringify nc_alloc x0 10 hint =
           Some (Inr (Push_sprintf (double_sign_bit x0) (of_nat n)))"
    using du by (simp add: lz)
  then show ?thesis by simp
qed

theorem stringify_fast_path_witness:
  "duk_numconv_stringify nc_cleared 0xc045000000000000 10 0 =
     Some (Inr (Push_sprintf (double_sign_bit 0xc045000000000000) (of_nat 42))) \<and>
   duk_pushed_string (Push_sprintf (double_sign_bit 0xc045000000000000) (of_nat 42)) =
     (if double_sign_bit 0xc045000000000000 then [CHR ''-''] else []) @ fmt_u (of_nat 42)"
proof (rule stringify_fast_path)
  show "fpclassify 0xc045000000000000 = FP_NORMAL \<or> fpclassify 0xc045000000000000 = FP_SUBNORMAL"
    by code_simp
  show "(42::nat) < 2 ^ 32" by simp
  have "double_mant 0xc045000000000000 = 5910974510923776" "double_exp 0xc045000000000000 = - 47"
    by code_simp+
  then show "double_mant 0xc045000000000000 * 2 ^ nat (double_exp 0xc045000000000000) =
      int 42 * 2 ^ nat (- double_exp 0xc045000000000000)"
    by simp
qed

text \<open>
  Claim C9. The claim: for every finite positive double and radix from 2 to 36 the loops of
  Scale and Generate end, so that the conversion call returns. The loops of the source
  have no bound, but the output buffer has: \<^verbatim>\<open>char out_buf[512]\<close>, written through
  \<^verbatim>\<open>NUMCONV_PUTCHAR\<close> with an assertion as the only check. For the double \<open>2^516\<close> (bit pattern
  \<open>0x6030000000000000\<close>) in radix 2, whatever the initial content of the context, Scale
  returns \<open>k = 517\<close>, Generate emits the one digit \<open>1\<close>, and \<open>dragon4_finish\<close> writes zeros until
  the buffer holds 512 characters and the next write is past its end.
\<close>

theorem conversion_overruns_out_buf:
  "map_option (map_sum fst id) (duk_numconv_stringify nc_alloc 0x6030000000000000 2 hint) =
     Some (Inl Out_Buf_Overflow) \<and>
   map_option (map_sum (nc_k \<circ> snd) id) (duk_numconv_stringify nc_alloc 0x6030000000000000 2 hint) =
     Some (Inl 517) \<and>
   map_option (map_sum (nc_emitted \<circ> snd) id) (duk_numconv_stringify nc_alloc 0x6030000000000000 2 hint) =
     Some (Inl [1]) \<and>
   map_option (map_sum (length \<circ> nc_out_buf \<circ> snd) id)
     (duk_numconv_stringify nc_alloc 0x6030000000000000 2 hint) = Some (Inl 512)"
proof -
  from slow_ctx_overruns_for_2_pow_516 [of nc_alloc] obtain nc where
    sc: "numconv_slow_ctx nc_alloc 0x6030000000000000 2 0 = Some (Inl (Out_Buf_Overflow, nc))"
    and v: "nc_k nc = 517" "nc_emitted nc = [1]" "length (nc_out_buf nc) = 512"
    by blast
  have cls: "fpclassify 0x6030000000000000 = FP_NORMAL \<or> fpclassify 0x6030000000000000 = FP_SUBNORMAL"
    by code_simp
  have pos: "double_less_zero 0x6030000000000000 = False" by code_simp
  have "duk_numconv_stringify nc_alloc 0x6030000000000000 2 hint =
      numconv_slow_path nc_alloc 0x6030000000000000 2 0"
    unfolding stringify_finite [OF cls] pos by simp
  also have "\<dots> = Some (Inl (Out_Buf_Overflow, nc))"
    by (simp add: numconv_slow_path_def sc)
  finally show ?thesis by (simp add: v)
qed



end
